theory Spec2Isabelle
  imports Complex_Main "HOL-Library.Log_Nat"
begin

section \<open>Errors and files\<close>

text \<open>
  JavaScript error objects are modelled by a datatype with one constructor per place of the
  source that creates one. \<open>StoreFailure n m\<close> is the \<open>request.error\<close> (or
  \<open>reader.error\<close>) of a failed store write; \<open>n\<close> says that its name is
  \<open>QuotaExceededError\<close> and \<open>m\<close> that its message contains \<open>quota\<close>, the two tests
  made by the catch block of \<open>enqueueSubmission\<close>.
\<close>

datatype js_error =
    NotEnoughStorage int nat    \<comment> \<open>sync.js 53-58: available, needed; name QuotaExceededError\<close>
  | StorageQuotaExceeded        \<comment> \<open>utils: 'Storage quota exceeded. Please free up space.'\<close>
  | StoreFailure bool bool
  | RecordNotFound              \<comment> \<open>db.js updateRecord: 'Record not found'\<close>
  | QueueItemNotFound           \<comment> \<open>db.js updateQueueItem: 'Queue item not found'\<close>
  | HttpError                   \<comment> \<open>api.js handleResponse, or fetch rejecting\<close>
  | ChunkUploadFailed nat nat   \<comment> \<open>api.js 239: 'Failed to upload chunk i/n'\<close>
  | ListenerThrew nat           \<comment> \<open>whatever the status listener with that number throws\<close>

text \<open>
  A \<open>File\<close> is its name, its MIME type and its size; its bytes are not modelled, since the
  code only ever measures and slices them.
\<close>

record js_file =
  fname :: string
  ftype :: string
  fsize :: nat

section \<open>Transfer client (api.js)\<close>

definition CHUNK_SIZE :: nat where
  "CHUNK_SIZE = 5 * 1024 * 1024"

definition shouldUseChunkedUpload :: "js_file \<Rightarrow> bool" where
  "shouldUseChunkedUpload f =
     (let LARGE_FILE_THRESHOLD = 10 * 1024 * 1024 in fsize f > LARGE_FILE_THRESHOLD)"

text \<open>
  The remote service is an oracle. \<open>chunk_ok i r\<close> is the outcome of the request sending
  chunk \<open>i\<close> that is made while the loop variable \<open>retries\<close> has the value \<open>r\<close>
  (3 at the first try, then 2, then 1); a request fails when \<open>fetch\<close> rejects or the
  response is not ok.
\<close>

record network =
  whole_ok :: bool
  init_ok :: bool
  chunk_ok :: "nat \<Rightarrow> nat \<Rightarrow> bool"
  finalize_ok :: bool

text \<open>What \<open>uploadMediaChunked\<close> does, in order: requests, progress calls and timers.\<close>

datatype event =
    PostInit nat              \<comment> \<open>total_chunks\<close>
  | PostChunk nat nat nat     \<comment> \<open>chunk_index, start, end of the slice\<close>
  | OnProgress nat nat        \<comment> \<open>bytesUploaded, totalBytes\<close>
  | Backoff nat               \<comment> \<open>setTimeout delay in milliseconds\<close>
  | PostFinalize

definition uploadMedia :: "network \<Rightarrow> js_file \<Rightarrow> js_error + unit" where
  "uploadMedia net f = (if whole_ok net then Inr () else Inl HttpError)"

text \<open>
  The \<open>while (retries > 0 && !success)\<close> loop of one chunk (api.js 210-244), by recursion
  on \<open>retries\<close>. The result is the error thrown, if any.
\<close>

fun chunk_retry_loop ::
  "network \<Rightarrow> nat \<Rightarrow> nat \<Rightarrow> nat \<Rightarrow> nat \<Rightarrow> nat \<Rightarrow> nat \<Rightarrow> js_error option \<times> event list" where
  "chunk_retry_loop net totalChunks fileSize chunkIndex start end' 0 = (None, [])"
| "chunk_retry_loop net totalChunks fileSize chunkIndex start end' (Suc r) =
     (if chunk_ok net chunkIndex (Suc r)
      then (None, [PostChunk chunkIndex start end', OnProgress end' fileSize])
      else
        let retries = r in
        if retries = 0
        then (Some (ChunkUploadFailed (chunkIndex + 1) totalChunks),
              [PostChunk chunkIndex start end'])
        else
          let (res, evs) = chunk_retry_loop net totalChunks fileSize chunkIndex start end' retries
          in (res, PostChunk chunkIndex start end' # Backoff (2 ^ (3 - retries) * 1000) # evs))"

text \<open>The \<open>for\<close> loop over the chunks (api.js 199-245).\<close>

function chunk_loop :: "network \<Rightarrow> nat \<Rightarrow> nat \<Rightarrow> nat \<Rightarrow> js_error option \<times> event list" where
  "chunk_loop net totalChunks fileSize chunkIndex =
     (if chunkIndex < totalChunks then
        let start = chunkIndex * CHUNK_SIZE;
            end' = min (start + CHUNK_SIZE) fileSize
        in case chunk_retry_loop net totalChunks fileSize chunkIndex start end' 3 of
             (Some e, evs) \<Rightarrow> (Some e, evs)
           | (None, evs) \<Rightarrow>
               (let (res, evs') = chunk_loop net totalChunks fileSize (Suc chunkIndex)
                in (res, evs @ evs'))
      else (None, []))"
  by pat_completeness auto
termination
  by (relation "measure (\<lambda>(net, totalChunks, fileSize, chunkIndex). totalChunks - chunkIndex)") auto

declare chunk_loop.simps [simp del]

definition uploadMediaChunked :: "network \<Rightarrow> js_file \<Rightarrow> (js_error + unit) \<times> event list" where
  "uploadMediaChunked net f =
     (let fileSize = fsize f;
          totalChunks = nat \<lceil>real fileSize / real CHUNK_SIZE\<rceil>
      in if \<not> init_ok net then (Inl HttpError, [PostInit totalChunks])
         else case chunk_loop net totalChunks fileSize 0 of
                (Some e, evs) \<Rightarrow> (Inl e, PostInit totalChunks # evs)
              | (None, evs) \<Rightarrow>
                  (if finalize_ok net then Inr () else Inl HttpError,
                   PostInit totalChunks # evs @ [PostFinalize]))"

subsection \<open>The chunked transfer, as the specification words it\<close>

text \<open>
  The three definitions below follow the words of the specification, not the code: a chunk
  is tried up to three times, with a pause of \<open>2 ^ k\<close> seconds after its \<open>k\<close>-th
  failure; a chunk is exhausted when its three tries fail; chunks are sent in the order of
  their index up to the first exhausted one, where the transfer fails. They are compared
  with \<open>uploadMediaChunked\<close> below.
\<close>

definition exhausted :: "network \<Rightarrow> nat \<Rightarrow> bool" where
  "exhausted net i = (\<not> chunk_ok net i 3 \<and> \<not> chunk_ok net i 2 \<and> \<not> chunk_ok net i 1)"

definition spec_chunk_attempts :: "network \<Rightarrow> nat \<Rightarrow> nat \<Rightarrow> event list" where
  "spec_chunk_attempts net S i =
     (let send = PostChunk i (i * CHUNK_SIZE) (min ((i + 1) * CHUNK_SIZE) S);
          progress = OnProgress (min ((i + 1) * CHUNK_SIZE) S) S
      in if chunk_ok net i 3 then [send, progress]
         else if chunk_ok net i 2 then [send, Backoff (2 ^ 1 * 1000), send, progress]
         else if chunk_ok net i 1
         then [send, Backoff (2 ^ 1 * 1000), send, Backoff (2 ^ 2 * 1000), send, progress]
         else [send, Backoff (2 ^ 1 * 1000), send, Backoff (2 ^ 2 * 1000), send])"

definition spec_chunked_transfer :: "network \<Rightarrow> nat \<Rightarrow> (js_error + unit) \<times> event list" where
  "spec_chunked_transfer net S =
     (let n = nat \<lceil>real S / real CHUNK_SIZE\<rceil>
      in if \<not> init_ok net then (Inl HttpError, [PostInit n])
         else case find (exhausted net) [0..<n] of
                Some i \<Rightarrow>
                  (Inl (ChunkUploadFailed (i + 1) n),
                   PostInit n # concat (map (spec_chunk_attempts net S) [0..<Suc i]))
              | None \<Rightarrow>
                  (if finalize_ok net then Inr () else Inl HttpError,
                   PostInit n # concat (map (spec_chunk_attempts net S) [0..<n]) @ [PostFinalize]))"

text \<open>The indices of the chunks sent, and the progress calls, in the order of a trace.\<close>

fun chunk_indices :: "event list \<Rightarrow> nat list" where
  "chunk_indices [] = []"
| "chunk_indices (PostChunk i s e # evs) = i # chunk_indices evs"
| "chunk_indices (ev # evs) = chunk_indices evs"

fun progress_calls :: "event list \<Rightarrow> (nat \<times> nat) list" where
  "progress_calls [] = []"
| "progress_calls (OnProgress b t # evs) = (b, t) # progress_calls evs"
| "progress_calls (ev # evs) = progress_calls evs"

section \<open>Durable store (db.js)\<close>

datatype item_status = Pending | Uploading | Synced | Failed

text \<open>The argument of \<open>enqueueSubmission\<close>, and a stored record (time stamps left out).\<close>

record submission =
  title :: string
  description :: string
  mediaFiles :: "js_file list"

record db_record = submission +
  record_id :: nat
  synced :: bool

text \<open>
  A stored queue item. \<open>fileData\<close> is the payload \<open>ArrayBuffer\<close>, modelled by its
  \<open>byteLength\<close>; the time stamps \<open>createdAt\<close>, \<open>lastAttemptAt\<close> and \<open>syncedAt\<close> are
  left out, no branch of the code reads them.
\<close>

record queue_item =
  item_id :: nat
  submissionId :: nat
  fileName :: string
  fileType :: string
  fileSize :: nat
  fileData :: nat
  metadata :: "string \<times> string"
  status :: item_status
  attempts :: nat
  maxAttempts :: nat
  error :: "js_error option"
  useChunked :: bool
  uploadProgress :: int
  bytesUploaded :: nat

text \<open>
  The argument of \<open>enqueueMedia\<close>: \<open>None\<close> is a property that the caller did not set.
\<close>

record enqueue_request =
  req_submissionId :: nat
  req_file :: js_file
  req_metadata :: "string \<times> string"
  req_status :: "item_status option"
  req_attempts :: "nat option"
  req_maxAttempts :: "nat option"
  req_useChunked :: "bool option"

text \<open>
  The two object stores, each in key order, with the last key that its \<open>autoIncrement\<close>
  key generator issued.
\<close>

record store =
  records :: "db_record list"
  mediaQueue :: "queue_item list"
  recordsKey :: nat
  mediaQueueKey :: nat

definition empty_store :: store where
  "empty_store = \<lparr>records = [], mediaQueue = [], recordsKey = 0, mediaQueueKey = 0\<rparr>"

text \<open>
  \<open>createRecord\<close> and \<open>enqueueMedia\<close> take the error of the write, if the store (or the
  \<open>FileReader\<close>) fails it: then the promise is rejected and nothing is written.
\<close>

definition createRecord ::
  "js_error option \<Rightarrow> submission \<Rightarrow> store \<Rightarrow> (js_error + nat) \<times> store" where
  "createRecord failure r st =
     (case failure of
        Some e \<Rightarrow> (Inl e, st)
      | None \<Rightarrow>
          (let key = recordsKey st + 1
           in (Inr key,
               st\<lparr>records := records st @
                     [\<lparr>title = title r, description = description r, mediaFiles = mediaFiles r,
                       record_id = key, synced = False\<rparr>],
                  recordsKey := key\<rparr>)))"

definition updateRecord ::
  "nat \<Rightarrow> (db_record \<Rightarrow> db_record) \<Rightarrow> store \<Rightarrow> (js_error + unit) \<times> store" where
  "updateRecord i updates st =
     (case find (\<lambda>r. record_id r = i) (records st) of
        None \<Rightarrow> (Inl RecordNotFound, st)
      | Some r \<Rightarrow>
          (Inr (), st\<lparr>records := map (\<lambda>r. if record_id r = i then updates r else r) (records st)\<rparr>))"

definition enqueueMedia ::
  "js_error option \<Rightarrow> enqueue_request \<Rightarrow> store \<Rightarrow> (js_error + nat) \<times> store" where
  "enqueueMedia failure queueItem st =
     (case failure of
        Some e \<Rightarrow> (Inl e, st)
      | None \<Rightarrow>
          (let f = req_file queueItem;
               key = mediaQueueKey st + 1;
               item = \<lparr>item_id = key,
                       submissionId = req_submissionId queueItem,
                       fileName = fname f,
                       fileType = ftype f,
                       fileSize = fsize f,
                       fileData = fsize f,
                       metadata = req_metadata queueItem,
                       status = (case req_status queueItem of None \<Rightarrow> Pending | Some s \<Rightarrow> s),
                       attempts = (case req_attempts queueItem of None \<Rightarrow> 0 | Some n \<Rightarrow> n),
                       maxAttempts = (case req_maxAttempts queueItem of
                                        None \<Rightarrow> 5 | Some n \<Rightarrow> if n = 0 then 5 else n),
                       error = None,
                       useChunked = (case req_useChunked queueItem of None \<Rightarrow> False | Some b \<Rightarrow> b),
                       uploadProgress = 0,
                       bytesUploaded = 0\<rparr>
           in (Inr key, st\<lparr>mediaQueue := mediaQueue st @ [item], mediaQueueKey := key\<rparr>)))"

definition getPendingQueueItems :: "store \<Rightarrow> queue_item list" where
  "getPendingQueueItems st = filter (\<lambda>item. status item = Pending) (mediaQueue st)"

definition getAllQueueItems :: "store \<Rightarrow> queue_item list" where
  "getAllQueueItems st = mediaQueue st"

definition getQueueItemsBySubmissionId :: "nat \<Rightarrow> store \<Rightarrow> queue_item list" where
  "getQueueItemsBySubmissionId sid st = filter (\<lambda>item. submissionId item = sid) (mediaQueue st)"

text \<open>
  \<open>updateQueueItem\<close> merges \<open>{...item, ...updates}\<close>: the \<open>updates\<close> object is the
  function that overwrites its properties in the stored item.
\<close>

definition updateQueueItem ::
  "nat \<Rightarrow> (queue_item \<Rightarrow> queue_item) \<Rightarrow> store \<Rightarrow> (js_error + unit) \<times> store" where
  "updateQueueItem i updates st =
     (case find (\<lambda>item. item_id item = i) (mediaQueue st) of
        None \<Rightarrow> (Inl QueueItemNotFound, st)
      | Some item \<Rightarrow>
          (Inr (),
           st\<lparr>mediaQueue :=
                map (\<lambda>item. if item_id item = i then updates item else item) (mediaQueue st)\<rparr>))"

definition arrayBufferToFile :: "nat \<Rightarrow> string \<Rightarrow> string \<Rightarrow> js_file" where
  "arrayBufferToFile arrayBuffer name type = \<lparr>fname = name, ftype = type, fsize = arrayBuffer\<rparr>"

section \<open>Sync coordinator (sync.js)\<close>

datatype sync_status = IDLE | SYNCING | SUCCESS | ERROR

text \<open>
  A status listener is a function of the caller's. The model knows it by a number and by
  the statuses on which it throws instead of returning; what else it does is outside
  sync.js.
\<close>

record listener =
  cb_id :: nat
  cb_throws :: "sync_status \<Rightarrow> bool"

text \<open>
  The module state: the store, \<open>syncStatus\<close> and \<open>syncListeners\<close>.
  \<open>callbackLog\<close> lists the calls of listeners made so far, each with its argument; a
  call that throws is listed too.
\<close>

record app_state =
  db :: store
  syncStatus :: sync_status
  syncListeners :: "listener list"
  callbackLog :: "(nat \<times> sync_status) list"

text \<open>
  What the platform decides: \<open>navigator.onLine\<close>, the storage estimate
  (\<open>quota - usage\<close>), the writes and reads of the store that fail, and the remote service
  met by the transfer of each queue item (by its id).
\<close>

record env =
  onLine :: bool
  storage_available :: int
  record_write :: "js_error option"
  media_write :: "nat \<Rightarrow> js_error option"
  pending_read :: "js_error option"
  remote :: "nat \<Rightarrow> network"

text \<open>
  sync.js 25-28: the callback is pushed, then called; what it throws leaves
  \<open>onSyncStatusChange\<close>.
\<close>

definition onSyncStatusChange :: "listener \<Rightarrow> app_state \<Rightarrow> (js_error + unit) \<times> app_state" where
  "onSyncStatusChange callback s =
     (let s1 = s\<lparr>syncListeners := syncListeners s @ [callback]\<rparr>;
          s2 = s1\<lparr>callbackLog := callbackLog s1 @ [(cb_id callback, syncStatus s1)]\<rparr>
      in (if cb_throws callback (syncStatus s1) then Inl (ListenerThrew (cb_id callback))
          else Inr (), s2))"

text \<open>
  \<open>syncListeners.forEach(cb => cb(status))\<close>: the listeners are called in the order of
  the array; nothing catches what one of them throws, so the first that throws ends the
  loop and the listeners after it are not called. The result is the error thrown, if any,
  with the calls made.
\<close>

fun call_listeners ::
  "listener list \<Rightarrow> sync_status \<Rightarrow> js_error option \<times> (nat \<times> sync_status) list" where
  "call_listeners [] st = (None, [])"
| "call_listeners (cb # cbs) st =
     (if cb_throws cb st then (Some (ListenerThrew (cb_id cb)), [(cb_id cb, st)])
      else let (r, calls) = call_listeners cbs st in (r, (cb_id cb, st) # calls))"

text \<open>sync.js 30-33: the status is assigned before the listeners are called.\<close>

definition notifySyncStatusChange ::
  "sync_status \<Rightarrow> app_state \<Rightarrow> (js_error + unit) \<times> app_state" where
  "notifySyncStatusChange st s =
     (let s1 = s\<lparr>syncStatus := st\<rparr>;
          (r, calls) = call_listeners (syncListeners s1) st
      in (case r of None \<Rightarrow> Inr () | Some e \<Rightarrow> Inl e,
          s1\<lparr>callbackLog := callbackLog s1 @ calls\<rparr>))"

subsection \<open>JavaScript numbers\<close>

text \<open>
  A JavaScript number is an IEEE 754 double. A finite double is modelled by the real number
  it denotes, and an arithmetic operation by the exact operation followed by
  \<open>binary64\<close>, the rounding of a real to the nearest double, a tie going to the double
  with the even significand. A double in the normal range has a significand of 53 bits:
  the doubles between \<open>2 ^ e\<close> and \<open>2 ^ (e + 1)\<close> are the multiples of
  \<open>2 ^ (e - 52)\<close>. Overflow and the subnormal range are not modelled; the numbers
  rounded here lie between \<open>2 ^ - 53\<close> and 100.

  \<open>binade x\<close> is the \<open>e\<close> with \<open>2 ^ e \<le> x < 2 ^ (e + 1)\<close> for a positive \<open>x\<close>,
  the floor of its binary logarithm (\<open>binade_log\<close> below), computed from the number of
  bits of \<open>\<lfloor>x\<rfloor>\<close>, or of \<open>\<lceil>1 / x\<rceil> - 1\<close> when \<open>x < 1\<close>.
\<close>

definition binade :: "real \<Rightarrow> int" where
  "binade x =
     (if 1 \<le> x then int (floorlog 2 (nat \<lfloor>x\<rfloor>)) - 1
      else - int (floorlog 2 (nat (\<lceil>1 / x\<rceil> - 1))))"

definition round_ties_even :: "real \<Rightarrow> int" where
  "round_ties_even x =
     (if x - of_int \<lfloor>x\<rfloor> < 1 / 2 then \<lfloor>x\<rfloor>
      else if 1 / 2 < x - of_int \<lfloor>x\<rfloor> then \<lfloor>x\<rfloor> + 1
      else if even \<lfloor>x\<rfloor> then \<lfloor>x\<rfloor> else \<lfloor>x\<rfloor> + 1)"

definition binary64 :: "real \<Rightarrow> real" where
  "binary64 x =
     (if x = 0 then 0
      else let ulp = 2 powi (binade \<bar>x\<bar> - 52)
           in of_int (round_ties_even (x / ulp)) * ulp)"

definition js_div :: "real \<Rightarrow> real \<Rightarrow> real" where
  "js_div x y = binary64 (x / y)"

definition js_mul :: "real \<Rightarrow> real \<Rightarrow> real" where
  "js_mul x y = binary64 (x * y)"

text \<open>
  \<open>Math.round\<close>: the nearest integer, a tie going up. It is exact on the doubles below
  \<open>2 ^ 52\<close>.
\<close>

definition Math_round :: "real \<Rightarrow> int" where
  "Math_round x = \<lfloor>x + 1 / 2\<rfloor>"

subsection \<open>One queue item\<close>

text \<open>
  The callback made by \<open>createProgressCallback\<close> (sync.js 113-127); byte counts are
  integers below \<open>2 ^ 53\<close>, which are doubles. \<open>uploadMediaChunked\<close> calls it after a
  chunk was sent, with the size of the file as \<open>totalBytes\<close>, and there is a chunk only
  when that size is not 0, so the division by 0, which gives no finite double, does not
  occur. \<open>uploadMediaChunked\<close> does not await the callback, so a rejected update is lost
  and the store stays as it is.
\<close>

definition createProgressCallback :: "nat \<Rightarrow> nat \<Rightarrow> nat \<Rightarrow> store \<Rightarrow> store" where
  "createProgressCallback queueItemId bytesUploaded' totalBytes st =
     (let progress = Math_round (js_mul (js_div (real bytesUploaded') (real totalBytes)) 100)
      in snd (updateQueueItem queueItemId
                (\<lambda>item. item\<lparr>uploadProgress := progress, bytesUploaded := bytesUploaded'\<rparr>) st))"

fun run_progress :: "nat \<Rightarrow> event list \<Rightarrow> store \<Rightarrow> store" where
  "run_progress queueItemId [] st = st"
| "run_progress queueItemId (ev # evs) st =
     run_progress queueItemId evs
       (case ev of OnProgress b t \<Rightarrow> createProgressCallback queueItemId b t st | _ \<Rightarrow> st)"

text \<open>sync.js 142-147.\<close>

definition beginUpload :: "queue_item \<Rightarrow> store \<Rightarrow> (js_error + unit) \<times> store" where
  "beginUpload queueItem =
     updateQueueItem (item_id queueItem)
       (\<lambda>item. item\<lparr>status := Uploading, attempts := attempts queueItem + 1,
                    uploadProgress := 0, bytesUploaded := 0\<rparr>)"

text \<open>sync.js 150: the transfer path of an attempt.\<close>

definition usesChunkedPath :: "queue_item \<Rightarrow> bool" where
  "usesChunkedPath queueItem =
     (useChunked queueItem \<or>
      shouldUseChunkedUpload
        (arrayBufferToFile (fileData queueItem) (fileName queueItem) (fileType queueItem)))"

text \<open>sync.js 159-162.\<close>

definition wholeUploaded :: "queue_item \<Rightarrow> js_file \<Rightarrow> store \<Rightarrow> (js_error + unit) \<times> store" where
  "wholeUploaded queueItem f =
     updateQueueItem (item_id queueItem)
       (\<lambda>item. item\<lparr>uploadProgress := 100, bytesUploaded := fsize f\<rparr>)"

text \<open>sync.js 149-163.\<close>

definition transferFile ::
  "network \<Rightarrow> queue_item \<Rightarrow> js_file \<Rightarrow> store \<Rightarrow> (js_error + unit) \<times> store" where
  "transferFile net queueItem f st =
     (if usesChunkedPath queueItem then
        (let (res, evs) = uploadMediaChunked net f
         in (res, run_progress (item_id queueItem) evs st))
      else
        (case uploadMedia net f of
           Inl e \<Rightarrow> (Inl e, st)
         | Inr _ \<Rightarrow> wholeUploaded queueItem f st))"

text \<open>sync.js 166-170.\<close>

definition markSynced :: "queue_item \<Rightarrow> store \<Rightarrow> (js_error + unit) \<times> store" where
  "markSynced queueItem =
     updateQueueItem (item_id queueItem) (\<lambda>item. item\<lparr>status := Synced, uploadProgress := 100\<rparr>)"

definition checkAndUpdateRecordSyncStatus :: "nat \<Rightarrow> store \<Rightarrow> (js_error + unit) \<times> store" where
  "checkAndUpdateRecordSyncStatus sid st =
     (let queueItems = getQueueItemsBySubmissionId sid st;
          allSynced = list_all (\<lambda>item. status item = Synced) queueItems
      in if allSynced then updateRecord sid (\<lambda>r. r\<lparr>synced := True\<rparr>) st else (Inr (), st))"

text \<open>sync.js 179-188, the catch block.\<close>

definition markFailure :: "queue_item \<Rightarrow> js_error \<Rightarrow> store \<Rightarrow> (js_error + unit) \<times> store" where
  "markFailure queueItem e =
     (let newAttempts = attempts queueItem + 1;
          shouldRetry = newAttempts < maxAttempts queueItem
      in updateQueueItem (item_id queueItem)
           (\<lambda>item. item\<lparr>status := (if shouldRetry then Pending else Failed),
                        attempts := newAttempts, error := Some e, uploadProgress := 0\<rparr>))"

text \<open>
  The value of \<open>syncQueueItem\<close>: \<open>{success: true, itemId}\<close> or
  \<open>{success: false, itemId, error, shouldRetry}\<close>; \<open>Inl\<close> when its promise is rejected
  (the update of the catch block failed).
\<close>

datatype item_outcome = Done nat | NotDone nat js_error bool

definition syncQueueItem ::
  "network \<Rightarrow> queue_item \<Rightarrow> store \<Rightarrow> (js_error + item_outcome) \<times> store" where
  "syncQueueItem net queueItem st =
     (let f = arrayBufferToFile (fileData queueItem) (fileName queueItem) (fileType queueItem);
          tried =
            (case beginUpload queueItem st of
               (Inl e, st1) \<Rightarrow> (Inl e, st1)
             | (Inr _, st1) \<Rightarrow>
                 (case transferFile net queueItem f st1 of
                    (Inl e, st2) \<Rightarrow> (Inl e, st2)
                  | (Inr _, st2) \<Rightarrow>
                      (case markSynced queueItem st2 of
                         (Inl e, st3) \<Rightarrow> (Inl e, st3)
                       | (Inr _, st3) \<Rightarrow>
                           checkAndUpdateRecordSyncStatus (submissionId queueItem) st3)))
      in case tried of
           (Inr _, st') \<Rightarrow> (Inr (Done (item_id queueItem)), st')
         | (Inl e, st') \<Rightarrow>
             (case markFailure queueItem e st' of
                (Inl e', st'') \<Rightarrow> (Inl e', st'')
              | (Inr _, st'') \<Rightarrow>
                  (Inr (NotDone (item_id queueItem) e
                          (attempts queueItem + 1 < maxAttempts queueItem)), st'')))"

subsection \<open>A pass\<close>

text \<open>
  The items of a pass start 100 ms apart, in the order of the list; the model runs them one
  after the other in that order. A rejected \<open>syncQueueItem\<close> resolves its wrapper with
  the error (\<open>.catch(resolve)\<close>), so every result is fulfilled.
\<close>

fun sync_items ::
  "(nat \<Rightarrow> network) \<Rightarrow> queue_item list \<Rightarrow> store \<Rightarrow> (js_error + item_outcome) list \<times> store" where
  "sync_items nets [] st = ([], st)"
| "sync_items nets (item # items) st =
     (let (r, st1) = syncQueueItem (nets (item_id item)) item st;
          (rs, st2) = sync_items nets items st1
      in (r # rs, st2))"

text \<open>\<open>r.status === 'fulfilled' && r.value.success\<close>.\<close>

fun value_success :: "js_error + item_outcome \<Rightarrow> bool" where
  "value_success (Inr (Done i)) = True"
| "value_success (Inr (NotDone i e b)) = False"
| "value_success (Inl e) = False"

text \<open>The try block of \<open>syncQueue\<close> (sync.js 223-250); \<open>Inl\<close> is what it throws.\<close>

definition syncQueue_try :: "env \<Rightarrow> app_state \<Rightarrow> (js_error + nat \<times> nat) \<times> app_state" where
  "syncQueue_try ev s1 =
     (case pending_read ev of
        Some e \<Rightarrow> (Inl e, s1)
      | None \<Rightarrow>
          (let pendingItems = getPendingQueueItems (db s1) in
           if length pendingItems = 0 then
             (case notifySyncStatusChange SUCCESS s1 of
                (Inl e, s2) \<Rightarrow> (Inl e, s2)
              | (Inr _, s2) \<Rightarrow> (Inr (0, 0), s2))
           else
             let (results, db') = sync_items (remote ev) pendingItems (db s1);
                 synced' = length (filter value_success results);
                 failed = length results - synced'
             in case notifySyncStatusChange (if failed = 0 then SUCCESS else ERROR)
                       (s1\<lparr>db := db'\<rparr>) of
                  (Inl e, s2) \<Rightarrow> (Inl e, s2)
                | (Inr _, s2) \<Rightarrow> (Inr (synced', failed), s2)))"

text \<open>
  sync.js 209-256. The first notification is outside the \<open>try\<close>: what a listener throws
  there rejects the promise of \<open>syncQueue\<close> at once. The catch block notifies
  \<open>ERROR\<close> and throws the error it caught again, unless that notification throws.
\<close>

definition syncQueue :: "env \<Rightarrow> app_state \<Rightarrow> (js_error + nat \<times> nat) \<times> app_state" where
  "syncQueue ev s =
     (if \<not> onLine ev then (Inr (0, 0), s)
      else if syncStatus s = SYNCING then (Inr (0, 0), s)
      else
        case notifySyncStatusChange SYNCING s of
          (Inl e, s1) \<Rightarrow> (Inl e, s1)
        | (Inr _, s1) \<Rightarrow>
            (case syncQueue_try ev s1 of
               (Inr counts, s2) \<Rightarrow> (Inr counts, s2)
             | (Inl e, s2) \<Rightarrow>
                 (case notifySyncStatusChange ERROR s2 of
                    (Inl e', s3) \<Rightarrow> (Inl e', s3)
                  | (Inr _, s3) \<Rightarrow> (Inl e, s3))))"

subsection \<open>Enqueue and retry\<close>

text \<open>
  \<open>Promise.all\<close> over the \<open>enqueueMedia\<close> calls of a submission (sync.js 76-89): every
  call is made, whatever the others do, and the first rejection, if any, is the result.
  \<open>k\<close> is the position of the file in the submission.
\<close>

fun enqueue_files ::
  "(nat \<Rightarrow> js_error option) \<Rightarrow> nat \<Rightarrow> nat \<Rightarrow> submission \<Rightarrow> js_file list \<Rightarrow> store
     \<Rightarrow> js_error option \<times> store" where
  "enqueue_files failures k recordId submissionData [] st = (None, st)"
| "enqueue_files failures k recordId submissionData (f # fs) st =
     (let (r, st1) =
            enqueueMedia (failures k)
              \<lparr>req_submissionId = recordId, req_file = f,
               req_metadata = (title submissionData, description submissionData),
               req_status = Some Pending, req_attempts = None, req_maxAttempts = None,
               req_useChunked = Some (shouldUseChunkedUpload f)\<rparr> st;
          (rs, st2) = enqueue_files failures (Suc k) recordId submissionData fs st1
      in ((case r of Inl e \<Rightarrow> Some e | Inr _ \<Rightarrow> rs), st2))"

text \<open>The try block of \<open>enqueueSubmission\<close> up to \<open>await Promise.all\<close> (sync.js 48-89).\<close>

definition storeSubmission :: "env \<Rightarrow> submission \<Rightarrow> store \<Rightarrow> (js_error + nat) \<times> store" where
  "storeSubmission ev submissionData st =
     (let totalSize = foldl (\<lambda>sum f. sum + fsize f) 0 (mediaFiles submissionData);
          enough = (storage_available ev \<ge> int totalSize)
      in if \<not> enough then (Inl (NotEnoughStorage (storage_available ev) totalSize), st)
         else
           case createRecord (record_write ev) submissionData st of
             (Inl e, st1) \<Rightarrow> (Inl e, st1)
           | (Inr recordId, st1) \<Rightarrow>
               (case enqueue_files (media_write ev) 0 recordId submissionData
                       (mediaFiles submissionData) st1 of
                  (Some e, st2) \<Rightarrow> (Inl e, st2)
                | (None, st2) \<Rightarrow> (Inr recordId, st2)))"

text \<open>
  The catch block (sync.js 97-107) with \<open>utils.handleQuotaError\<close>: the tests on the name
  and on the message of the error, and the error thrown again.
\<close>

fun name_is_quota :: "js_error \<Rightarrow> bool" where
  "name_is_quota (NotEnoughStorage a n) = True"
| "name_is_quota (StoreFailure n m) = n"
| "name_is_quota e = False"

fun message_includes_quota :: "js_error \<Rightarrow> bool" where
  "message_includes_quota (StoreFailure n m) = m"
| "message_includes_quota StorageQuotaExceeded = True"
| "message_includes_quota e = False"

definition handleQuotaError :: "js_error \<Rightarrow> js_error" where
  "handleQuotaError e = (if name_is_quota e then StorageQuotaExceeded else e)"

definition rethrown :: "js_error \<Rightarrow> js_error" where
  "rethrown e = (if name_is_quota e \<or> message_includes_quota e then handleQuotaError e else e)"

text \<open>
  \<open>enqueueSubmission\<close> starts a pass without awaiting it when the platform is online; the
  model runs that pass to its end. Nothing reads the promise of that pass, so what it is
  rejected with is lost.
\<close>

definition enqueueSubmission ::
  "env \<Rightarrow> submission \<Rightarrow> app_state \<Rightarrow> (js_error + nat) \<times> app_state" where
  "enqueueSubmission ev submissionData s =
     (case storeSubmission ev submissionData (db s) of
        (Inl e, db') \<Rightarrow> (Inl (rethrown e), s\<lparr>db := db'\<rparr>)
      | (Inr recordId, db') \<Rightarrow>
          (Inr recordId,
           if onLine ev then snd (syncQueue ev (s\<lparr>db := db'\<rparr>)) else s\<lparr>db := db'\<rparr>))"

text \<open>\<open>Promise.all\<close> over the updates of \<open>retryFailedItems\<close> (sync.js 283-287).\<close>

fun reset_items :: "queue_item list \<Rightarrow> store \<Rightarrow> js_error option \<times> store" where
  "reset_items [] st = (None, st)"
| "reset_items (item # items) st =
     (let (r, st1) =
            updateQueueItem (item_id item) (\<lambda>it. it\<lparr>status := Pending, error := None\<rparr>) st;
          (rs, st2) = reset_items items st1
      in ((case r of Inl e \<Rightarrow> Some e | Inr _ \<Rightarrow> rs), st2))"

definition failedItems_of :: "store \<Rightarrow> queue_item list" where
  "failedItems_of st =
     filter (\<lambda>item. status item = Failed \<and> attempts item < maxAttempts item) (getAllQueueItems st)"

definition retryFailedItems :: "env \<Rightarrow> app_state \<Rightarrow> (js_error + nat \<times> nat) \<times> app_state" where
  "retryFailedItems ev s =
     (let failedItems = failedItems_of (db s)
      in case reset_items failedItems (db s) of
           (Some e, db') \<Rightarrow> (Inl e, s\<lparr>db := db'\<rparr>)
         | (None, db') \<Rightarrow>
             (if length failedItems > 0 \<and> onLine ev then syncQueue ev (s\<lparr>db := db'\<rparr>)
              else (Inr (0, 0), s\<lparr>db := db'\<rparr>)))"

text \<open>
  The handlers that \<open>initSync\<close> registers for the \<open>online\<close> and \<open>offline\<close> events of
  the window (sync.js 302-310).
\<close>

definition online_handler :: "env \<Rightarrow> app_state \<Rightarrow> app_state" where
  "online_handler ev s = snd (syncQueue ev s)"

definition offline_handler :: "app_state \<Rightarrow> (js_error + unit) \<times> app_state" where
  "offline_handler s = notifySyncStatusChange IDLE s"

subsection \<open>The transitions, one store update at a time\<close>

text \<open>
  To speak of every state that the store can reach, also in the middle of a pass and when
  the transfers of a pass interleave, the updates of the code are taken one at a time. A
  system state is the store with the queue items that passes have fetched (their
  snapshots: \<open>syncQueueItem\<close> computes from the item it was given, not from the store).
  An action is one update of the code, made for a fetched snapshot; passes may overlap and
  the updates of one item may come in any order, so that every behaviour of the code is a
  run, and more.
\<close>

datatype action =
    Enqueue env submission          \<comment> \<open>the writes of \<open>enqueueSubmission\<close>\<close>
  | Fetch                           \<comment> \<open>\<open>getPendingQueueItems\<close> at the start of a pass\<close>
  | Begin queue_item                \<comment> \<open>pending to uploading\<close>
  | Progress queue_item nat nat     \<comment> \<open>the progress callback of the chunked path\<close>
  | WholeDone queue_item            \<comment> \<open>the update after the whole-payload upload\<close>
  | MarkSynced queue_item           \<comment> \<open>uploading to synced\<close>
  | Reconcile queue_item            \<comment> \<open>\<open>checkAndUpdateRecordSyncStatus\<close> for the parent\<close>
  | MarkFailure queue_item js_error \<comment> \<open>uploading to pending or failed\<close>
  | Retry                           \<comment> \<open>the updates of \<open>retryFailedItems\<close>\<close>

fun step :: "action \<Rightarrow> store \<times> queue_item list \<Rightarrow> store \<times> queue_item list" where
  "step (Enqueue ev sd) (st, fetched) = (snd (storeSubmission ev sd st), fetched)"
| "step Fetch (st, fetched) = (st, fetched @ getPendingQueueItems st)"
| "step (Begin q) (st, fetched) =
     (if q \<in> set fetched then snd (beginUpload q st) else st, fetched)"
| "step (Progress q b t) (st, fetched) =
     (if q \<in> set fetched then createProgressCallback (item_id q) b t st else st, fetched)"
| "step (WholeDone q) (st, fetched) =
     (if q \<in> set fetched
      then snd (wholeUploaded q (arrayBufferToFile (fileData q) (fileName q) (fileType q)) st)
      else st, fetched)"
| "step (MarkSynced q) (st, fetched) =
     (if q \<in> set fetched then snd (markSynced q st) else st, fetched)"
| "step (Reconcile q) (st, fetched) =
     (if q \<in> set fetched then snd (checkAndUpdateRecordSyncStatus (submissionId q) st) else st,
      fetched)"
| "step (MarkFailure q e) (st, fetched) =
     (if q \<in> set fetched then snd (markFailure q e st) else st, fetched)"
| "step Retry (st, fetched) = (snd (reset_items (failedItems_of st) st), fetched)"

definition run :: "action list \<Rightarrow> store \<times> queue_item list" where
  "run acts = foldl (\<lambda>sys a. step a sys) (empty_store, []) acts"

definition steps :: "action list \<Rightarrow> store \<times> queue_item list \<Rightarrow> store \<times> queue_item list" where
  "steps acts sys = foldl (\<lambda>sys a. step a sys) sys acts"

subsection \<open>The invariant of the store\<close>

text \<open>
  What holds of every stored queue item, of every fetched snapshot and of every record, in
  every state of a run: the bounds on the attempts, the chunking flag, and that a record
  marked synced has a child.
\<close>

definition item_ok :: "queue_item \<Rightarrow> bool" where
  "item_ok it = (maxAttempts it = 5 \<and> attempts it \<le> 5 \<and>
     (status it = Failed \<longrightarrow> attempts it = 5) \<and>
     (status it = Pending \<longrightarrow> attempts it < 5) \<and>
     fileData it = fileSize it \<and>
     useChunked it = (fileSize it > 10 * 1024 * 1024))"

definition snapshot_ok :: "queue_item \<Rightarrow> bool" where
  "snapshot_ok q = (item_ok q \<and> status q = Pending)"

definition sys_ok :: "store \<times> queue_item list \<Rightarrow> bool" where
  "sys_ok sys =
     (case sys of (st, fetched) \<Rightarrow>
        list_all item_ok (mediaQueue st) \<and>
        list_all (\<lambda>q. snapshot_ok q \<and> submissionId q \<in> submissionId ` set (mediaQueue st)) fetched \<and>
        list_all (\<lambda>r. synced r \<longrightarrow> record_id r \<in> submissionId ` set (mediaQueue st)) (records st))"

subsection \<open>What a pass does to one item\<close>

text \<open>
  The verdict of the remote service on the transfer of a queue item: the result of the
  upload that \<open>syncQueueItem\<close> makes for it (sync.js 153-158).
\<close>

definition transfer_outcome :: "network \<Rightarrow> queue_item \<Rightarrow> js_error + unit" where
  "transfer_outcome net q =
     (let f = arrayBufferToFile (fileData q) (fileName q) (fileType q)
      in if usesChunkedPath q then fst (uploadMediaChunked net f) else uploadMedia net f)"

text \<open>
  \<open>touched i Q st st'\<close>: from \<open>st\<close> to \<open>st'\<close> the queue keeps its ids, the items with
  another id than \<open>i\<close> are items of \<open>st\<close>, and the items with id \<open>i\<close> satisfy \<open>Q\<close>.
\<close>

definition touched :: "nat \<Rightarrow> (queue_item \<Rightarrow> bool) \<Rightarrow> store \<Rightarrow> store \<Rightarrow> bool" where
  "touched i Q st st' =
     (map item_id (mediaQueue st') = map item_id (mediaQueue st) \<and>
      (\<forall>it \<in> set (mediaQueue st'). if item_id it = i then Q it else it \<in> set (mediaQueue st)))"

definition item_synced_or_retried :: "network \<Rightarrow> queue_item \<Rightarrow> queue_item \<Rightarrow> bool" where
  "item_synced_or_retried net q it =
     (attempts it = attempts q + 1 \<and>
      (\<forall>e. transfer_outcome net q = Inl e \<longrightarrow>
         status it = (if attempts q + 1 < maxAttempts q then Pending else Failed) \<and>
         error it = Some e))"

text \<open>The ids of the queue are distinct, and none is above the last key issued.\<close>

definition ids_ok :: "store \<Rightarrow> bool" where
  "ids_ok st =
     (distinct (map item_id (mediaQueue st)) \<and>
      list_all (\<lambda>k. k \<le> mediaQueueKey st) (map item_id (mediaQueue st)))"

text \<open>
  The properties of a queue item that \<open>enqueueMedia\<close> writes and that no update of
  sync.js names: its id, its parent, the file and the chunking flag.
\<close>

definition enqueued_part ::
  "queue_item \<Rightarrow> nat \<times> nat \<times> string \<times> string \<times> nat \<times> nat \<times> bool" where
  "enqueued_part it =
     (item_id it, submissionId it, fileName it, fileType it, fileSize it, fileData it,
      useChunked it)"

text \<open>Every fetched snapshot has the enqueued part of a stored item.\<close>

definition parts_ok :: "store \<times> queue_item list \<Rightarrow> bool" where
  "parts_ok sys =
     (case sys of (st, fetched) \<Rightarrow>
        list_all (\<lambda>q. enqueued_part q \<in> set (map enqueued_part (mediaQueue st))) fetched)"

text \<open>
  \<open>notified s changes s'\<close>: from \<open>s\<close> to \<open>s'\<close> the status took the values
  \<open>changes\<close>, in this order, and at each of them every registered listener was called
  with it, in the order of registration; nothing else was called and the listeners are the
  same.
\<close>

definition notified :: "app_state \<Rightarrow> sync_status list \<Rightarrow> app_state \<Rightarrow> bool" where
  "notified s changes s' =
     (syncListeners s' = syncListeners s \<and>
      syncStatus s' = last (syncStatus s # changes) \<and>
      callbackLog s' =
        callbackLog s @
        concat (map (\<lambda>st. map (\<lambda>cb. (cb_id cb, st)) (syncListeners s)) changes))"

definition pass_notified :: "app_state \<Rightarrow> app_state \<Rightarrow> bool" where
  "pass_notified s s' =
     (notified s [] s' \<or> notified s [SYNCING, SUCCESS] s' \<or> notified s [SYNCING, ERROR] s')"

text \<open>
  What the progress call with the arguments \<open>c\<close> (\<open>bytesUploaded\<close> and
  \<open>totalBytes\<close>) leaves on the item.
\<close>

definition progress_stored :: "nat \<times> nat \<Rightarrow> queue_item \<Rightarrow> bool" where
  "progress_stored c it =
     (bytesUploaded it = fst c \<and>
      uploadProgress it = Math_round (js_mul (js_div (real (fst c)) (real (snd c))) 100))"

section \<open>Concrete scenarios\<close>

definition net_ok :: network where
  "net_ok = \<lparr>whole_ok = True, init_ok = True, chunk_ok = (\<lambda>i r. True), finalize_ok = True\<rparr>"


definition env_of :: "bool \<Rightarrow> network \<Rightarrow> env" where
  "env_of on net =
     \<lparr>onLine = on, storage_available = 1000000000, record_write = None,
      media_write = (\<lambda>k. None), pending_read = None, remote = (\<lambda>i. net)\<rparr>"

definition initial_state :: app_state where
  "initial_state = \<lparr>db = empty_store, syncStatus = IDLE, syncListeners = [], callbackLog = []\<rparr>"

definition photo :: js_file where
  "photo = \<lparr>fname = ''a.jpg'', ftype = ''image/jpeg'', fsize = 2097152\<rparr>"

definition one_file :: submission where
  "one_file = \<lparr>title = ''t'', description = ''d'', mediaFiles = [photo]\<rparr>"

text \<open>The 2 MiB file of \<open>one_file\<close> as a queue item, after \<open>n\<close> attempts.\<close>

definition photo_item :: "nat \<Rightarrow> item_status \<Rightarrow> js_error option \<Rightarrow> queue_item" where
  "photo_item n s e =
     \<lparr>item_id = 1, submissionId = 1, fileName = ''a.jpg'', fileType = ''image/jpeg'',
      fileSize = 2097152, fileData = 2097152, metadata = (''t'', ''d''), status = s,
      attempts = n, maxAttempts = 5, error = e, useChunked = False,
      uploadProgress = 0, bytesUploaded = 0\<rparr>"

definition photo_store :: "nat \<Rightarrow> item_status \<Rightarrow> js_error option \<Rightarrow> store" where
  "photo_store n s e =
     \<lparr>records = [\<lparr>title = ''t'', description = ''d'', mediaFiles = [photo],
                  record_id = 1, synced = False\<rparr>],
      mediaQueue = [photo_item n s e], recordsKey = 1, mediaQueueKey = 1\<rparr>"

text \<open>A pass is running, with one pending item in the queue.\<close>

definition busy_state :: app_state where
  "busy_state =
     \<lparr>db = photo_store 0 Pending None, syncStatus = SYNCING, syncListeners = [],
      callbackLog = []\<rparr>"

definition video :: js_file where
  "video = \<lparr>fname = ''b.mp4'', ftype = ''video/mp4'', fsize = 23068672\<rparr>"

definition two_files :: submission where
  "two_files = \<lparr>title = ''t'', description = ''d'', mediaFiles = [photo, video]\<rparr>"

definition no_files :: submission where
  "no_files = \<lparr>title = ''t'', description = ''d'', mediaFiles = []\<rparr>"

text \<open>The 22 MiB file of \<open>two_files\<close> as a queue item, as it is enqueued.\<close>

definition video_item :: queue_item where
  "video_item =
     \<lparr>item_id = 2, submissionId = 1, fileName = ''b.mp4'', fileType = ''video/mp4'',
      fileSize = 23068672, fileData = 23068672, metadata = (''t'', ''d''), status = Pending,
      attempts = 0, maxAttempts = 5, error = None, useChunked = True,
      uploadProgress = 0, bytesUploaded = 0\<rparr>"

text \<open>The store after a submission without files.\<close>

definition childless_store :: store where
  "childless_store =
     \<lparr>records = [\<lparr>title = ''t'', description = ''d'', mediaFiles = [],
                  record_id = 1, synced = False\<rparr>],
      mediaQueue = [], recordsKey = 1, mediaQueueKey = 0\<rparr>"

text \<open>The write of the second queue item of a submission fails.\<close>

definition env_second_write_fails :: env where
  "env_second_write_fails =
     (env_of False net_ok)
       \<lparr>media_write := (\<lambda>k. if k = 1 then Some (StoreFailure False False) else None)\<rparr>"

text \<open>One MiB of storage is left.\<close>

definition env_full :: env where
  "env_full = (env_of True net_ok)\<lparr>storage_available := 1048576\<rparr>"

text \<open>One file is enqueued, and five passes fail to upload it.\<close>

definition exhaust_acts :: "action list" where
  "exhaust_acts =
     [Enqueue (env_of False net_ok) one_file,
      Fetch, Begin (photo_item 0 Pending None), MarkFailure (photo_item 0 Pending None) HttpError,
      Fetch, Begin (photo_item 1 Pending (Some HttpError)),
             MarkFailure (photo_item 1 Pending (Some HttpError)) HttpError,
      Fetch, Begin (photo_item 2 Pending (Some HttpError)),
             MarkFailure (photo_item 2 Pending (Some HttpError)) HttpError,
      Fetch, Begin (photo_item 3 Pending (Some HttpError)),
             MarkFailure (photo_item 3 Pending (Some HttpError)) HttpError,
      Fetch, Begin (photo_item 4 Pending (Some HttpError)),
             MarkFailure (photo_item 4 Pending (Some HttpError)) HttpError]"

definition exhausted_state :: app_state where
  "exhausted_state =
     \<lparr>db = photo_store 5 Failed (Some HttpError), syncStatus = ERROR, syncListeners = [],
      callbackLog = []\<rparr>"

text \<open>The remote service refuses chunk 3 every time.\<close>

definition net_chunk3_fails :: network where
  "net_chunk3_fails =
     \<lparr>whole_ok = True, init_ok = True, chunk_ok = (\<lambda>i r. i \<noteq> 3), finalize_ok = True\<rparr>"

text \<open>The store after \<open>two_files\<close> was enqueued, and a pass in which the upload of the photo fails.\<close>

definition two_files_store :: store where
  "two_files_store =
     \<lparr>records = [\<lparr>title = ''t'', description = ''d'', mediaFiles = [photo, video],
                   record_id = 1, synced = False\<rparr>],
       mediaQueue = [photo_item 0 Pending None, video_item], recordsKey = 1, mediaQueueKey = 2\<rparr>"



text \<open>A file of 200 MiB, which is sent in 40 chunks, as the only item of the queue.\<close>

definition movie :: js_file where
  "movie = \<lparr>fname = ''c.mp4'', ftype = ''video/mp4'', fsize = 209715200\<rparr>"

definition movie_item :: queue_item where
  "movie_item =
     \<lparr>item_id = 1, submissionId = 1, fileName = ''c.mp4'', fileType = ''video/mp4'',
      fileSize = 209715200, fileData = 209715200, metadata = (''t'', ''d''), status = Uploading,
      attempts = 1, maxAttempts = 5, error = None, useChunked = True,
      uploadProgress = 0, bytesUploaded = 0\<rparr>"

definition movie_store :: store where
  "movie_store =
     \<lparr>records = [\<lparr>title = ''t'', description = ''d'', mediaFiles = [movie],
                  record_id = 1, synced = False\<rparr>],
      mediaQueue = [movie_item], recordsKey = 1, mediaQueueKey = 1\<rparr>"

text \<open>A listener that returns on every status, and one that throws on every status.\<close>

definition quiet_listener :: "nat \<Rightarrow> listener" where
  "quiet_listener n = \<lparr>cb_id = n, cb_throws = (\<lambda>st. False)\<rparr>"

definition throwing_listener :: "nat \<Rightarrow> listener" where
  "throwing_listener n = \<lparr>cb_id = n, cb_throws = (\<lambda>st. True)\<rparr>"

text \<open>One pending item in the queue, no pass running, and two listeners registered.\<close>

definition watched_state :: app_state where
  "watched_state =
     \<lparr>db = photo_store 0 Pending None, syncStatus = IDLE,
      syncListeners = [quiet_listener 1, quiet_listener 2], callbackLog = []\<rparr>"

definition faulty_listener_state :: app_state where
  "faulty_listener_state =
     \<lparr>db = photo_store 0 Pending None, syncStatus = IDLE,
      syncListeners = [throwing_listener 1, quiet_listener 2], callbackLog = []\<rparr>"

text \<open>
  The file of \<open>two_files\<close> above the threshold fails once and is fetched again: the
  snapshot of its second attempt.
\<close>

definition retry_acts :: "action list" where
  "retry_acts =
     [Enqueue (env_of False net_ok) two_files, Fetch, Begin video_item,
      MarkFailure video_item HttpError, Fetch]"

definition video_item_again :: queue_item where
  "video_item_again = video_item\<lparr>attempts := 1, error := Some HttpError\<rparr>"

section \<open>Properties\<close>

subsection \<open>The invariant is kept by every action\<close>

lemma updateQueueItem_queue:
  "mediaQueue (snd (updateQueueItem i f st)) = mediaQueue st \<or>
   mediaQueue (snd (updateQueueItem i f st)) = map (\<lambda>item. if item_id item = i then f item else item) (mediaQueue st)"
  by (simp add: updateQueueItem_def split: option.splits)

lemma updateQueueItem_records [simp]:
  "records (snd (updateQueueItem i f st)) = records st"
  by (simp add: updateQueueItem_def split: option.splits)

lemma updateQueueItem_item_ok:
  assumes "\<And>it. item_ok it \<Longrightarrow> item_ok (f it)" and "list_all item_ok (mediaQueue st)"
  shows "list_all item_ok (mediaQueue (snd (updateQueueItem i f st)))"
  using assms updateQueueItem_queue [of i f st]
  by (auto simp: list_all_iff)

lemma updateQueueItem_parents:
  assumes "\<And>it. submissionId (f it) = submissionId it"
  shows "submissionId ` set (mediaQueue (snd (updateQueueItem i f st))) = submissionId ` set (mediaQueue st)"
proof -
  have "map submissionId (map (\<lambda>item. if item_id item = i then f item else item) (mediaQueue st))
        = map submissionId (mediaQueue st)"
    using assms by (induction "mediaQueue st") auto
  then have "submissionId ` set (map (\<lambda>item. if item_id item = i then f item else item) (mediaQueue st))
        = submissionId ` set (mediaQueue st)"
    by (metis list.set_map)
  then show ?thesis
    using updateQueueItem_queue [of i f st] by auto
qed

lemma sys_ok_update:
  assumes "sys_ok (st, fetched)"
    and "\<And>it. item_ok it \<Longrightarrow> item_ok (f it)"
    and "\<And>it. submissionId (f it) = submissionId it"
  shows "sys_ok (snd (updateQueueItem i f st), fetched)"
  using assms updateQueueItem_item_ok [of f st i] updateQueueItem_parents [of f i st]
  by (simp add: sys_ok_def)


lemma sys_ok_fetchedD:
  "sys_ok (st, fetched) \<Longrightarrow> q \<in> set fetched \<Longrightarrow>
   maxAttempts q = 5 \<and> attempts q < 5 \<and> submissionId q \<in> submissionId ` set (mediaQueue st)"
  by (auto simp: sys_ok_def list_all_iff snapshot_ok_def item_ok_def)

lemma sys_ok_begin:
  "sys_ok (st, fetched) \<Longrightarrow> q \<in> set fetched \<Longrightarrow> sys_ok (snd (beginUpload q st), fetched)"
  unfolding beginUpload_def
  by (rule sys_ok_update) (use sys_ok_fetchedD [of st fetched q] in \<open>auto simp: item_ok_def\<close>)

lemma sys_ok_progress:
  "sys_ok (st, fetched) \<Longrightarrow> sys_ok (createProgressCallback i b t st, fetched)"
  unfolding createProgressCallback_def Let_def
  by (rule sys_ok_update) (auto simp: item_ok_def)

lemma sys_ok_wholeUploaded:
  "sys_ok (st, fetched) \<Longrightarrow> sys_ok (snd (wholeUploaded q f st), fetched)"
  unfolding wholeUploaded_def
  by (rule sys_ok_update) (auto simp: item_ok_def)

lemma sys_ok_markSynced:
  "sys_ok (st, fetched) \<Longrightarrow> sys_ok (snd (markSynced q st), fetched)"
  unfolding markSynced_def
  by (rule sys_ok_update) (auto simp: item_ok_def)

lemma sys_ok_markFailure:
  "sys_ok (st, fetched) \<Longrightarrow> q \<in> set fetched \<Longrightarrow> sys_ok (snd (markFailure q e st), fetched)"
  unfolding markFailure_def Let_def
  by (rule sys_ok_update) (use sys_ok_fetchedD [of st fetched q] in \<open>auto simp: item_ok_def\<close>)

lemma updateRecord_queue [simp]:
  "mediaQueue (snd (updateRecord i f st)) = mediaQueue st"
  by (simp add: updateRecord_def split: option.splits)

lemma updateRecord_records:
  "records (snd (updateRecord i f st)) = records st \<or>
   records (snd (updateRecord i f st)) = map (\<lambda>r. if record_id r = i then f r else r) (records st)"
  by (simp add: updateRecord_def split: option.splits)

lemma sys_ok_reconcile:
  assumes "sys_ok (st, fetched)" and "sid \<in> submissionId ` set (mediaQueue st)"
  shows "sys_ok (snd (checkAndUpdateRecordSyncStatus sid st), fetched)"
proof (cases "list_all (\<lambda>item. status item = Synced) (getQueueItemsBySubmissionId sid st)")
  case False
  then show ?thesis using assms(1) by (simp add: checkAndUpdateRecordSyncStatus_def)
next
  case True
  have "list_all (\<lambda>r. synced r \<longrightarrow> record_id r \<in> submissionId ` set (mediaQueue st))
          (records (snd (updateRecord sid (\<lambda>r. r\<lparr>synced := True\<rparr>) st)))"
    using assms updateRecord_records [of sid "\<lambda>r. r\<lparr>synced := True\<rparr>" st]
    by (auto simp: sys_ok_def list_all_iff)
  then show ?thesis
    using True assms(1) by (simp add: checkAndUpdateRecordSyncStatus_def sys_ok_def)
qed

lemma failedItems_of_ok:
  "list_all item_ok (mediaQueue st) \<Longrightarrow> failedItems_of st = []"
  by (auto simp: failedItems_of_def getAllQueueItems_def filter_empty_conv list_all_iff item_ok_def)

lemma sys_ok_retry:
  "sys_ok (st, fetched) \<Longrightarrow> sys_ok (snd (reset_items (failedItems_of st) st), fetched)"
  by (simp add: failedItems_of_ok sys_ok_def)

lemma sys_ok_fetch:
  "sys_ok (st, fetched) \<Longrightarrow> sys_ok (st, fetched @ getPendingQueueItems st)"
  by (auto simp: sys_ok_def list_all_iff getPendingQueueItems_def snapshot_ok_def)


lemma enqueueMedia_props:
  assumes "list_all item_ok (mediaQueue st)"
  shows "list_all item_ok (mediaQueue (snd (enqueueMedia w
            \<lparr>req_submissionId = rid, req_file = f, req_metadata = m,
             req_status = Some Pending, req_attempts = None, req_maxAttempts = None,
             req_useChunked = Some (shouldUseChunkedUpload f)\<rparr> st))) \<and>
         set (mediaQueue st) \<subseteq> set (mediaQueue (snd (enqueueMedia w
            \<lparr>req_submissionId = rid, req_file = f, req_metadata = m,
             req_status = Some Pending, req_attempts = None, req_maxAttempts = None,
             req_useChunked = Some (shouldUseChunkedUpload f)\<rparr> st))) \<and>
         records (snd (enqueueMedia w
            \<lparr>req_submissionId = rid, req_file = f, req_metadata = m,
             req_status = Some Pending, req_attempts = None, req_maxAttempts = None,
             req_useChunked = Some (shouldUseChunkedUpload f)\<rparr> st)) = records st"
  using assms
  by (auto simp: enqueueMedia_def Let_def item_ok_def shouldUseChunkedUpload_def split: option.splits)

lemma enqueue_files_props:
  "list_all item_ok (mediaQueue st) \<Longrightarrow>
   list_all item_ok (mediaQueue (snd (enqueue_files w k rid sd fs st))) \<and>
   set (mediaQueue st) \<subseteq> set (mediaQueue (snd (enqueue_files w k rid sd fs st))) \<and>
   records (snd (enqueue_files w k rid sd fs st)) = records st"
proof (induction fs arbitrary: k st)
  case Nil
  then show ?case by simp
next
  case (Cons f fs)
  let ?st1 = "snd (enqueueMedia (w k)
            \<lparr>req_submissionId = rid, req_file = f, req_metadata = (title sd, description sd),
             req_status = Some Pending, req_attempts = None, req_maxAttempts = None,
             req_useChunked = Some (shouldUseChunkedUpload f)\<rparr> st)"
  have one: "list_all item_ok (mediaQueue ?st1) \<and> set (mediaQueue st) \<subseteq> set (mediaQueue ?st1) \<and>
             records ?st1 = records st"
    using enqueueMedia_props [OF Cons.prems] by blast
  have rest: "list_all item_ok (mediaQueue (snd (enqueue_files w (Suc k) rid sd fs ?st1))) \<and>
        set (mediaQueue ?st1) \<subseteq> set (mediaQueue (snd (enqueue_files w (Suc k) rid sd fs ?st1))) \<and>
        records (snd (enqueue_files w (Suc k) rid sd fs ?st1)) = records ?st1"
    using Cons.IH [of ?st1 "Suc k"] one by blast
  have unfold: "snd (enqueue_files w k rid sd (f # fs) st) = snd (enqueue_files w (Suc k) rid sd fs ?st1)"
    by (simp add: split_beta Let_def)
  show ?case
    unfolding unfold using one rest by auto
qed

lemma createRecord_props:
  "mediaQueue (snd (createRecord w sd st)) = mediaQueue st \<and>
   (\<forall>r \<in> set (records (snd (createRecord w sd st))). r \<in> set (records st) \<or> \<not> synced r)"
  by (auto simp: createRecord_def Let_def split: option.splits)

lemma storeSubmission_props:
  assumes "list_all item_ok (mediaQueue st)"
  shows "list_all item_ok (mediaQueue (snd (storeSubmission ev sd st))) \<and>
         set (mediaQueue st) \<subseteq> set (mediaQueue (snd (storeSubmission ev sd st))) \<and>
         (\<forall>r \<in> set (records (snd (storeSubmission ev sd st))). r \<in> set (records st) \<or> \<not> synced r)"
proof (cases "storage_available ev \<ge> int (foldl (\<lambda>sum f. sum + fsize f) 0 (mediaFiles sd))")
  case False
  then show ?thesis using assms by (simp add: storeSubmission_def)
next
  case enough: True
  obtain r st1 where cr: "createRecord (record_write ev) sd st = (r, st1)"
    by (cases "createRecord (record_write ev) sd st")
  have st1: "mediaQueue st1 = mediaQueue st \<and>
             (\<forall>r \<in> set (records st1). r \<in> set (records st) \<or> \<not> synced r)"
    using createRecord_props [of "record_write ev" sd st] cr by simp
  show ?thesis
  proof (cases r)
    case (Inl e)
    then show ?thesis using enough cr st1 assms by (simp add: storeSubmission_def)
  next
    case (Inr recordId)
    have ok1: "list_all item_ok (mediaQueue st1)" using st1 assms by simp
    have eq: "snd (storeSubmission ev sd st) =
              snd (enqueue_files (media_write ev) 0 recordId sd (mediaFiles sd) st1)"
      using enough cr Inr by (simp add: storeSubmission_def split: prod.splits option.splits)
    show ?thesis
      unfolding eq using enqueue_files_props [OF ok1, of "media_write ev" 0 recordId sd "mediaFiles sd"] st1
      by auto
  qed
qed

lemma sys_ok_enqueue:
  assumes "sys_ok (st, fetched)"
  shows "sys_ok (snd (storeSubmission ev sd st), fetched)"
proof -
  have ok: "list_all item_ok (mediaQueue st)" using assms by (simp add: sys_ok_def)
  note p = storeSubmission_props [OF ok, of ev sd]
  have img: "submissionId ` set (mediaQueue st) \<subseteq> submissionId ` set (mediaQueue (snd (storeSubmission ev sd st)))"
    using p by blast
  have a: "list_all item_ok (mediaQueue (snd (storeSubmission ev sd st)))"
    using p by blast
  have b: "list_all (\<lambda>q. snapshot_ok q \<and>
              submissionId q \<in> submissionId ` set (mediaQueue (snd (storeSubmission ev sd st)))) fetched"
    using assms img by (auto simp: sys_ok_def list_all_iff)
  have old: "\<forall>r\<in>set (records st). synced r \<longrightarrow> record_id r \<in> submissionId ` set (mediaQueue st)"
    using assms by (simp add: sys_ok_def list_all_iff)
  have c: "list_all (\<lambda>r. synced r \<longrightarrow>
              record_id r \<in> submissionId ` set (mediaQueue (snd (storeSubmission ev sd st))))
             (records (snd (storeSubmission ev sd st)))"
    unfolding list_all_iff using p old img by blast
  show ?thesis
    using a b c by (simp add: sys_ok_def)
qed

lemma sys_ok_step: "sys_ok sys \<Longrightarrow> sys_ok (step a sys)"
proof (cases sys)
  case (Pair st fetched)
  assume ok: "sys_ok sys"
  show ?thesis
  proof (cases a)
    case (Reconcile q)
    then show ?thesis
      using ok Pair sys_ok_reconcile [of st fetched "submissionId q"] sys_ok_fetchedD [of st fetched q]
      by simp
  qed (use ok Pair in \<open>simp_all add: sys_ok_enqueue sys_ok_fetch sys_ok_begin sys_ok_progress
        sys_ok_wholeUploaded sys_ok_markSynced sys_ok_markFailure sys_ok_retry\<close>)
qed

lemma sys_ok_foldl: "sys_ok sys \<Longrightarrow> sys_ok (foldl (\<lambda>sys a. step a sys) sys acts)"
  by (induction acts arbitrary: sys) (simp_all add: sys_ok_step)

lemma sys_ok_run: "sys_ok (run acts)"
  unfolding run_def by (rule sys_ok_foldl) (simp add: sys_ok_def empty_store_def)

subsection \<open>The ids of the queue\<close>

lemma map_ids_update:
  assumes "\<And>x. item_id (f x) = item_id x"
  shows "map item_id (map (\<lambda>item. if item_id item = i then f item else item) xs) = map item_id xs"
  using assms by (induction xs) auto

lemma updateQueueItem_ids:
  assumes "\<And>x. item_id (f x) = item_id x"
  shows "map item_id (mediaQueue (snd (updateQueueItem i f st))) = map item_id (mediaQueue st)"
  using updateQueueItem_queue [of i f st] map_ids_update [OF assms] by auto

lemma ids_ok_same:
  "ids_ok st \<Longrightarrow> map item_id (mediaQueue st') = map item_id (mediaQueue st) \<Longrightarrow>
   mediaQueueKey st' = mediaQueueKey st \<Longrightarrow> ids_ok st'"
  by (simp add: ids_ok_def)

lemma updateQueueItem_key [simp]:
  "mediaQueueKey (snd (updateQueueItem i f st)) = mediaQueueKey st"
  by (simp add: updateQueueItem_def split: option.splits)

lemma updateRecord_key [simp]: "mediaQueueKey (snd (updateRecord i f st)) = mediaQueueKey st"
  by (simp add: updateRecord_def split: option.splits)

lemma ids_ok_update:
  assumes "ids_ok st" and "\<And>x. item_id (f x) = item_id x"
  shows "ids_ok (snd (updateQueueItem i f st))"
  using assms(1) updateQueueItem_ids [of f i st, OF assms(2)] updateQueueItem_key [of i f st]
  by (rule ids_ok_same)

lemma ids_ok_reconcile:
  assumes "ids_ok st"
  shows "ids_ok (snd (checkAndUpdateRecordSyncStatus sid st))"
proof -
  have "map item_id (mediaQueue (snd (checkAndUpdateRecordSyncStatus sid st))) =
          map item_id (mediaQueue st)"
    and "mediaQueueKey (snd (checkAndUpdateRecordSyncStatus sid st)) = mediaQueueKey st"
    by (simp_all add: checkAndUpdateRecordSyncStatus_def)
  with assms show ?thesis by (rule ids_ok_same)
qed

lemma ids_ok_reset_items: "ids_ok st \<Longrightarrow> ids_ok (snd (reset_items items st))"
proof (induction items arbitrary: st)
  case Nil
  then show ?case by simp
next
  case (Cons item items)
  have "ids_ok (snd (updateQueueItem (item_id item) (\<lambda>it. it\<lparr>status := Pending, error := None\<rparr>) st))"
    using Cons.prems by (rule ids_ok_update) simp
  then show ?case using Cons.IH by (simp add: split_beta)
qed

lemma ids_ok_enqueueMedia:
  assumes "ids_ok st"
  shows "ids_ok (snd (enqueueMedia w r st))"
proof (cases w)
  case (Some e)
  then show ?thesis using assms by (simp add: enqueueMedia_def)
next
  case None
  have "\<forall>k \<in> set (map item_id (mediaQueue st)). k \<le> mediaQueueKey st"
    using assms by (simp add: ids_ok_def list_all_iff)
  then have "mediaQueueKey st + 1 \<notin> set (map item_id (mediaQueue st)) \<and>
             (\<forall>k \<in> set (map item_id (mediaQueue st)). k \<le> mediaQueueKey st + 1)"
    by fastforce
  then show ?thesis
    using assms None by (simp add: enqueueMedia_def Let_def ids_ok_def list_all_iff)
qed

lemma ids_ok_enqueue_files: "ids_ok st \<Longrightarrow> ids_ok (snd (enqueue_files w k rid sd fs st))"
  by (induction fs arbitrary: k st) (simp_all add: split_beta ids_ok_enqueueMedia)

lemma ids_ok_createRecord:
  assumes "ids_ok st"
  shows "ids_ok (snd (createRecord w sd st))"
proof -
  have "map item_id (mediaQueue (snd (createRecord w sd st))) = map item_id (mediaQueue st)"
    and "mediaQueueKey (snd (createRecord w sd st)) = mediaQueueKey st"
    by (simp_all add: createRecord_def Let_def split: option.splits)
  with assms show ?thesis by (rule ids_ok_same)
qed

lemma ids_ok_storeSubmission:
  assumes "ids_ok st"
  shows "ids_ok (snd (storeSubmission ev sd st))"
proof (cases "storage_available ev \<ge> int (foldl (\<lambda>sum f. sum + fsize f) 0 (mediaFiles sd))")
  case False
  then show ?thesis using assms by (simp add: storeSubmission_def)
next
  case enough: True
  obtain r st1 where cr: "createRecord (record_write ev) sd st = (r, st1)"
    by (cases "createRecord (record_write ev) sd st")
  have ok1: "ids_ok st1" using ids_ok_createRecord [OF assms, of "record_write ev" sd] cr by simp
  show ?thesis
  proof (cases r)
    case (Inl e)
    then show ?thesis using enough cr ok1 by (simp add: storeSubmission_def)
  next
    case (Inr recordId)
    have eq: "snd (storeSubmission ev sd st) =
              snd (enqueue_files (media_write ev) 0 recordId sd (mediaFiles sd) st1)"
      using enough cr Inr by (simp add: storeSubmission_def split: prod.splits option.splits)
    show ?thesis unfolding eq using ok1 by (rule ids_ok_enqueue_files)
  qed
qed

lemma ids_ok_step:
  assumes "ids_ok (fst sys)"
  shows "ids_ok (fst (step a sys))"
proof (cases sys)
  case (Pair st fetched)
  then have ok: "ids_ok st" using assms by simp
  have upd: "\<And>i f. (\<And>x. item_id (f x) = item_id x) \<Longrightarrow> ids_ok (snd (updateQueueItem i f st))"
    using ok by (rule ids_ok_update)
  show ?thesis
    unfolding Pair
    by (cases a)
       (simp_all add: ok ids_ok_storeSubmission ids_ok_reconcile ids_ok_reset_items
          beginUpload_def createProgressCallback_def wholeUploaded_def markSynced_def
          markFailure_def Let_def upd)
qed

lemma ids_ok_foldl: "ids_ok (fst sys) \<Longrightarrow> ids_ok (fst (foldl (\<lambda>sys a. step a sys) sys acts))"
  by (induction acts arbitrary: sys) (simp_all add: ids_ok_step)

lemma run_distinct_ids: "distinct (map item_id (mediaQueue (fst (run acts))))"
proof -
  have "ids_ok (fst (run acts))"
    unfolding run_def by (rule ids_ok_foldl) (simp add: ids_ok_def empty_store_def)
  then show ?thesis by (simp add: ids_ok_def)
qed

subsection \<open>What is written at enqueue stays\<close>

lemma map_part_update:
  assumes "\<And>x. g (f x) = g x"
  shows "map g (map (\<lambda>item. if item_id item = i then f item else item) xs) = map g xs"
  by (induction xs) (simp_all add: assms)

lemma updateQueueItem_parts:
  assumes "\<And>x. enqueued_part (f x) = enqueued_part x"
  shows "map enqueued_part (mediaQueue (snd (updateQueueItem i f st))) =
           map enqueued_part (mediaQueue st)"
  using map_part_update [of enqueued_part f i "mediaQueue st", OF assms]
  by (simp add: updateQueueItem_def split: option.splits)

lemma reset_items_parts:
  "map enqueued_part (mediaQueue (snd (reset_items items st))) = map enqueued_part (mediaQueue st)"
proof (induction items arbitrary: st)
  case Nil
  then show ?case by simp
next
  case (Cons item items)
  have "map enqueued_part
          (mediaQueue (snd (updateQueueItem (item_id item)
                              (\<lambda>it. it\<lparr>status := Pending, error := None\<rparr>) st))) =
        map enqueued_part (mediaQueue st)"
    by (rule updateQueueItem_parts) (simp add: enqueued_part_def)
  then show ?case using Cons.IH by (simp add: split_beta)
qed

lemma enqueueMedia_extends:
  "\<exists>ys. mediaQueue (snd (enqueueMedia w r st)) = mediaQueue st @ ys"
  by (cases w) (simp_all add: enqueueMedia_def Let_def)

lemma enqueue_files_extends:
  "\<exists>ys. mediaQueue (snd (enqueue_files w k rid sd fs st)) = mediaQueue st @ ys"
proof (induction fs arbitrary: k st)
  case Nil
  then show ?case by simp
next
  case (Cons f fs)
  define r where
    "r = \<lparr>req_submissionId = rid, req_file = f,
           req_metadata = (title sd, description sd),
           req_status = Some Pending, req_attempts = None, req_maxAttempts = None,
           req_useChunked = Some (shouldUseChunkedUpload f)\<rparr>"
  obtain ys where ys: "mediaQueue (snd (enqueueMedia (w k) r st)) = mediaQueue st @ ys"
    using enqueueMedia_extends by blast
  obtain zs where
    "mediaQueue (snd (enqueue_files w (Suc k) rid sd fs (snd (enqueueMedia (w k) r st)))) =
       mediaQueue (snd (enqueueMedia (w k) r st)) @ zs"
    using Cons.IH by blast
  then show ?case using ys by (simp add: split_beta r_def)
qed

lemma storeSubmission_extends:
  "\<exists>ys. mediaQueue (snd (storeSubmission ev sd st)) = mediaQueue st @ ys"
proof (cases "storage_available ev \<ge> int (foldl (\<lambda>sum f. sum + fsize f) 0 (mediaFiles sd))")
  case False
  then show ?thesis by (simp add: storeSubmission_def)
next
  case enough: True
  obtain r st1 where cr: "createRecord (record_write ev) sd st = (r, st1)"
    by (cases "createRecord (record_write ev) sd st")
  have q1: "mediaQueue st1 = mediaQueue st"
    using cr by (auto simp: createRecord_def Let_def split: option.splits)
  show ?thesis
  proof (cases r)
    case (Inl e)
    then show ?thesis using enough cr q1 by (simp add: storeSubmission_def)
  next
    case (Inr recordId)
    have eq: "snd (storeSubmission ev sd st) =
              snd (enqueue_files (media_write ev) 0 recordId sd (mediaFiles sd) st1)"
      using enough cr Inr by (simp add: storeSubmission_def split: prod.splits option.splits)
    show ?thesis
      unfolding eq using enqueue_files_extends [of "media_write ev" 0 recordId sd _ st1] q1
      by simp
  qed
qed

lemma step_extends:
  "\<exists>ys. map enqueued_part (mediaQueue (fst (step a sys))) =
          map enqueued_part (mediaQueue (fst sys)) @ ys"
proof (cases sys)
  case (Pair st fetched)
  have upd: "\<And>i f. (\<And>x. enqueued_part (f x) = enqueued_part x) \<Longrightarrow>
               map enqueued_part (mediaQueue (snd (updateQueueItem i f st))) =
               map enqueued_part (mediaQueue st)"
    by (rule updateQueueItem_parts)
  show ?thesis
  proof (cases a)
    case (Enqueue ev sd)
    obtain ys where "mediaQueue (snd (storeSubmission ev sd st)) = mediaQueue st @ ys"
      using storeSubmission_extends by blast
    then show ?thesis using Pair Enqueue by simp
  next
    case (Reconcile q)
    then show ?thesis using Pair by (simp add: checkAndUpdateRecordSyncStatus_def)
  next
    case Retry
    then show ?thesis using Pair by (simp add: reset_items_parts)
  qed (simp_all add: Pair beginUpload_def createProgressCallback_def wholeUploaded_def
         markSynced_def markFailure_def Let_def upd enqueued_part_def)
qed

lemma steps_extend:
  "\<exists>ys. map enqueued_part (mediaQueue (fst (foldl (\<lambda>sys a. step a sys) sys acts))) =
          map enqueued_part (mediaQueue (fst sys)) @ ys"
proof (induction acts arbitrary: sys)
  case Nil
  then show ?case by simp
next
  case (Cons a acts)
  obtain ys where ys: "map enqueued_part (mediaQueue (fst (step a sys))) =
                         map enqueued_part (mediaQueue (fst sys)) @ ys"
    using step_extends by blast
  obtain zs where
    "map enqueued_part (mediaQueue (fst (foldl (\<lambda>sys a. step a sys) (step a sys) acts))) =
       map enqueued_part (mediaQueue (fst (step a sys))) @ zs"
    using Cons.IH by blast
  then show ?case using ys by simp
qed

lemma step_fetched:
  "snd (step a (st, fetched)) = (if a = Fetch then fetched @ getPendingQueueItems st else fetched)"
  by (cases a) simp_all

lemma parts_ok_step:
  assumes "parts_ok sys"
  shows "parts_ok (step a sys)"
proof (cases sys)
  case (Pair st fetched)
  define st' where "st' = fst (step a (st, fetched))"
  obtain ys where ys: "map enqueued_part (mediaQueue st') = map enqueued_part (mediaQueue st) @ ys"
    using step_extends [of a "(st, fetched)"] by (auto simp: st'_def)
  have old: "\<forall>q \<in> set fetched. enqueued_part q \<in> set (map enqueued_part (mediaQueue st'))"
    using assms unfolding ys by (auto simp: parts_ok_def Pair list_all_iff)
  have new: "\<forall>q \<in> set (getPendingQueueItems st).
               enqueued_part q \<in> set (map enqueued_part (mediaQueue st'))"
    unfolding ys by (auto simp: getPendingQueueItems_def)
  have "list_all (\<lambda>q. enqueued_part q \<in> set (map enqueued_part (mediaQueue st')))
          (snd (step a (st, fetched)))"
    unfolding step_fetched using old new by (auto simp: list_all_iff)
  then show ?thesis by (simp add: parts_ok_def Pair split_beta st'_def)
qed

lemma parts_ok_foldl: "parts_ok sys \<Longrightarrow> parts_ok (foldl (\<lambda>sys a. step a sys) sys acts)"
  by (induction acts arbitrary: sys) (simp_all add: parts_ok_step)

lemma parts_ok_run: "parts_ok (run acts)"
  unfolding run_def by (rule parts_ok_foldl) (simp add: parts_ok_def)

lemma part_known:
  assumes "q \<in> set (mediaQueue (fst (run acts))) \<union> set (snd (run acts))"
  shows "enqueued_part q \<in> set (map enqueued_part (mediaQueue (fst (run acts))))"
  using assms parts_ok_run [of acts] by (auto simp: parts_ok_def split_beta list_all_iff)

text \<open>
  An item of a run, stored or fetched, and an item of any continuation of that run with
  the same id have the same enqueued part.
\<close>

lemma enqueued_part_fixed:
  assumes q: "q \<in> set (mediaQueue (fst (run acts))) \<union> set (snd (run acts))"
    and q': "q' \<in> set (mediaQueue (fst (run (acts @ later)))) \<union> set (snd (run (acts @ later)))"
    and id: "item_id q' = item_id q"
  shows "enqueued_part q' = enqueued_part q"
proof -
  let ?xs = "map enqueued_part (mediaQueue (fst (run (acts @ later))))"
  have r: "run (acts @ later) = foldl (\<lambda>sys a. step a sys) (run acts) later"
    by (simp add: run_def)
  obtain ys where "?xs = map enqueued_part (mediaQueue (fst (run acts))) @ ys"
    unfolding r using steps_extend by blast
  then have a: "enqueued_part q \<in> set ?xs" using part_known [OF q] by simp
  have b: "enqueued_part q' \<in> set ?xs" using q' by (rule part_known)
  have m: "map fst ?xs = map item_id (mediaQueue (fst (run (acts @ later))))"
    by (simp add: enqueued_part_def comp_def)
  have d: "distinct (map fst ?xs)" unfolding m by (rule run_distinct_ids)
  have "(item_id q, snd (enqueued_part q)) \<in> set ?xs"
    using a by (simp add: enqueued_part_def)
  moreover have "(item_id q, snd (enqueued_part q')) \<in> set ?xs"
    using b id by (simp add: enqueued_part_def)
  ultimately have "snd (enqueued_part q) = snd (enqueued_part q')"
    using d by (rule eq_key_imp_eq_value [rotated])
  then show ?thesis using id by (simp add: enqueued_part_def)
qed

subsection \<open>The effect of a pass, item by item\<close>

lemma updateQueueItem_present:
  assumes "i \<in> item_id ` set (mediaQueue st)"
  shows "updateQueueItem i f st =
           (Inr (), st\<lparr>mediaQueue :=
                         map (\<lambda>item. if item_id item = i then f item else item) (mediaQueue st)\<rparr>)"
proof -
  have "find (\<lambda>item. item_id item = i) (mediaQueue st) \<noteq> None"
    using assms by (auto simp: find_None_iff)
  then show ?thesis by (auto simp: updateQueueItem_def)
qed

lemma touched_ids:
  "touched i Q st0 st \<Longrightarrow> item_id ` set (mediaQueue st) = item_id ` set (mediaQueue st0)"
  unfolding touched_def by (metis list.set_map)

lemma touched_update:
  assumes t: "touched i Q st0 st" and present: "i \<in> item_id ` set (mediaQueue st0)"
    and ids: "\<And>x. item_id (f x) = item_id x"
    and Q': "\<And>x. Q x \<Longrightarrow> Q' (f x)"
  shows "touched i Q' st0 (snd (updateQueueItem i f st)) \<and> fst (updateQueueItem i f st) = Inr ()"
proof -
  have p: "i \<in> item_id ` set (mediaQueue st)" using present touched_ids [OF t] by simp
  note u = updateQueueItem_present [OF p, of f]
  have a: "map item_id (mediaQueue (snd (updateQueueItem i f st))) = map item_id (mediaQueue st0)"
    using updateQueueItem_ids [of f i st, OF ids] t by (simp add: touched_def)
  have b: "\<forall>it \<in> set (mediaQueue (snd (updateQueueItem i f st))).
             if item_id it = i then Q' it else it \<in> set (mediaQueue st0)"
  proof
    fix it
    assume "it \<in> set (mediaQueue (snd (updateQueueItem i f st)))"
    then have "it \<in> (\<lambda>item. if item_id item = i then f item else item) ` set (mediaQueue st)"
      unfolding u by simp
    then obtain x where x: "x \<in> set (mediaQueue st)"
      and it: "it = (if item_id x = i then f x else x)"
      by (rule imageE)
    have old: "if item_id x = i then Q x else x \<in> set (mediaQueue st0)"
      using t x by (simp add: touched_def)
    show "if item_id it = i then Q' it else it \<in> set (mediaQueue st0)"
    proof (cases "item_id x = i")
      case True
      then show ?thesis using it old ids Q' by simp
    next
      case False
      then show ?thesis using it old by simp
    qed
  qed
  show ?thesis using a b u by (simp add: touched_def)
qed

lemma touched_begin:
  assumes "item_id q \<in> item_id ` set (mediaQueue st)"
  shows "touched (item_id q) (\<lambda>it. attempts it = attempts q + 1) st (snd (beginUpload q st)) \<and>
         fst (beginUpload q st) = Inr ()"
proof -
  have t0: "touched (item_id q) (\<lambda>it. True) st st" by (simp add: touched_def)
  show ?thesis
    unfolding beginUpload_def
    by (rule touched_update [OF t0 assms]) simp_all
qed

lemma touched_progress:
  assumes "touched i (\<lambda>it. attempts it = n) st0 st" and "i \<in> item_id ` set (mediaQueue st0)"
  shows "touched i (\<lambda>it. attempts it = n) st0 (createProgressCallback i b t st)"
  unfolding createProgressCallback_def Let_def
  using touched_update [OF assms, of _ "\<lambda>it. attempts it = n"] by simp

lemma touched_run_progress:
  assumes "touched i (\<lambda>it. attempts it = n) st0 st" and "i \<in> item_id ` set (mediaQueue st0)"
  shows "touched i (\<lambda>it. attempts it = n) st0 (run_progress i evs st)"
  using assms
proof (induction evs arbitrary: st)
  case Nil
  then show ?case by simp
next
  case (Cons ev evs)
  show ?case
  proof (cases ev)
    case (OnProgress b t)
    then show ?thesis
      using Cons.IH [OF touched_progress [OF Cons.prems, of b t] Cons.prems(2)] by simp
  qed (use Cons in simp_all)
qed

lemma touched_transfer:
  assumes t: "touched (item_id q) (\<lambda>it. attempts it = n) st0 st"
    and present: "item_id q \<in> item_id ` set (mediaQueue st0)"
  shows "touched (item_id q) (\<lambda>it. attempts it = n) st0
           (snd (transferFile net q (arrayBufferToFile (fileData q) (fileName q) (fileType q)) st)) \<and>
         fst (transferFile net q (arrayBufferToFile (fileData q) (fileName q) (fileType q)) st) =
           transfer_outcome net q"
proof (cases "usesChunkedPath q")
  case True
  then show ?thesis
    using touched_run_progress [OF t present]
    by (simp add: transferFile_def transfer_outcome_def split_beta)
next
  case False
  show ?thesis
  proof (cases "uploadMedia net (arrayBufferToFile (fileData q) (fileName q) (fileType q))")
    case (Inl e)
    then show ?thesis using False t by (simp add: transferFile_def transfer_outcome_def)
  next
    case (Inr u)
    have "touched (item_id q) (\<lambda>it. attempts it = n) st0
            (snd (wholeUploaded q (arrayBufferToFile (fileData q) (fileName q) (fileType q)) st)) \<and>
          fst (wholeUploaded q (arrayBufferToFile (fileData q) (fileName q) (fileType q)) st) = Inr ()"
      unfolding wholeUploaded_def
      by (rule touched_update [OF t present]) simp_all
    then show ?thesis
      using False Inr by (simp add: transferFile_def transfer_outcome_def)
  qed
qed

lemma touched_markSynced:
  assumes "touched (item_id q) (\<lambda>it. attempts it = n) st0 st"
    and "item_id q \<in> item_id ` set (mediaQueue st0)"
  shows "touched (item_id q) (\<lambda>it. attempts it = n) st0 (snd (markSynced q st)) \<and>
         fst (markSynced q st) = Inr ()"
  unfolding markSynced_def
  by (rule touched_update [OF assms]) simp_all

lemma touched_markFailure:
  assumes "touched (item_id q) Q st0 st"
    and "item_id q \<in> item_id ` set (mediaQueue st0)"
  shows "touched (item_id q)
           (\<lambda>it. attempts it = attempts q + 1 \<and>
                 status it = (if attempts q + 1 < maxAttempts q then Pending else Failed) \<and>
                 error it = Some e) st0 (snd (markFailure q e st)) \<and>
         fst (markFailure q e st) = Inr ()"
  unfolding markFailure_def Let_def
  by (rule touched_update [OF assms]) simp_all

lemma touched_reconcile:
  assumes "touched i Q st0 st"
  shows "touched i Q st0 (snd (checkAndUpdateRecordSyncStatus sid st))"
  using assms by (simp add: touched_def checkAndUpdateRecordSyncStatus_def)

lemma touched_weaken:
  "touched i Q st0 st \<Longrightarrow> (\<And>x. Q x \<Longrightarrow> Q' x) \<Longrightarrow> touched i Q' st0 st"
  unfolding touched_def by (metis (mono_tags, lifting))

lemma syncQueueItem_touched:
  assumes present: "item_id q \<in> item_id ` set (mediaQueue st)"
  shows "touched (item_id q) (item_synced_or_retried net q) st (snd (syncQueueItem net q st)) \<and>
         (value_success (fst (syncQueueItem net q st)) \<longrightarrow> transfer_outcome net q = Inr ())"
proof -
  let ?f = "arrayBufferToFile (fileData q) (fileName q) (fileType q)"
  let ?Q1 = "\<lambda>it. attempts it = attempts q + 1"
  define st1 where "st1 = snd (beginUpload q st)"
  define st2 where "st2 = snd (transferFile net q ?f st1)"
  have b: "beginUpload q st = (Inr (), st1)" and t1: "touched (item_id q) ?Q1 st st1"
    using touched_begin [OF present] by (simp_all add: st1_def prod_eq_iff)
  have tr: "transferFile net q ?f st1 = (transfer_outcome net q, st2)"
    and t2: "touched (item_id q) ?Q1 st st2"
    using touched_transfer [OF t1 present, of net] by (simp_all add: st2_def prod_eq_iff)
  show ?thesis
  proof (cases "transfer_outcome net q")
    case (Inl e)
    define st5 where "st5 = snd (markFailure q e st2)"
    have mf: "markFailure q e st2 = (Inr (), st5)"
      and t5: "touched (item_id q)
           (\<lambda>it. attempts it = attempts q + 1 \<and>
                 status it = (if attempts q + 1 < maxAttempts q then Pending else Failed) \<and>
                 error it = Some e) st (snd (markFailure q e st2))"
      using touched_markFailure [OF t2 present, of e] by (simp_all add: st5_def prod_eq_iff)
    have res: "syncQueueItem net q st =
                 (Inr (NotDone (item_id q) e (attempts q + 1 < maxAttempts q)), st5)"
      by (simp add: syncQueueItem_def Let_def b tr Inl mf)
    have "touched (item_id q) (item_synced_or_retried net q) st st5"
      using t5 unfolding st5_def
      by (rule touched_weaken) (simp add: item_synced_or_retried_def Inl)
    then show ?thesis by (simp add: res)
  next
    case (Inr u)
    define st3 where "st3 = snd (markSynced q st2)"
    define r4 where "r4 = fst (checkAndUpdateRecordSyncStatus (submissionId q) st3)"
    define st4 where "st4 = snd (checkAndUpdateRecordSyncStatus (submissionId q) st3)"
    have ms: "markSynced q st2 = (Inr (), st3)" and t3: "touched (item_id q) ?Q1 st st3"
      using touched_markSynced [OF t2 present] by (simp_all add: st3_def prod_eq_iff)
    have rc: "checkAndUpdateRecordSyncStatus (submissionId q) st3 = (r4, st4)"
      by (simp add: r4_def st4_def)
    have t4: "touched (item_id q) ?Q1 st st4"
      using touched_reconcile [OF t3] by (simp add: st4_def)
    show ?thesis
    proof (cases r4)
      case ok: (Inr v)
      have res: "syncQueueItem net q st = (Inr (Done (item_id q)), st4)"
        by (simp add: syncQueueItem_def Let_def b tr Inr ms rc ok)
      have "touched (item_id q) (item_synced_or_retried net q) st st4"
        using t4 by (rule touched_weaken) (simp add: item_synced_or_retried_def Inr)
      then show ?thesis using Inr by (simp add: res)
    next
      case bad: (Inl e)
      define st5 where "st5 = snd (markFailure q e st4)"
      have mf: "markFailure q e st4 = (Inr (), st5)"
        and t5: "touched (item_id q)
           (\<lambda>it. attempts it = attempts q + 1 \<and>
                 status it = (if attempts q + 1 < maxAttempts q then Pending else Failed) \<and>
                 error it = Some e) st (snd (markFailure q e st4))"
        using touched_markFailure [OF t4 present, of e] by (simp_all add: st5_def prod_eq_iff)
      have res: "syncQueueItem net q st =
                   (Inr (NotDone (item_id q) e (attempts q + 1 < maxAttempts q)), st5)"
        by (simp add: syncQueueItem_def Let_def b tr Inr ms rc bad mf)
      have "touched (item_id q) (item_synced_or_retried net q) st st5"
        using t5 unfolding st5_def
        by (rule touched_weaken) (simp add: item_synced_or_retried_def Inr)
      then show ?thesis by (simp add: res)
    qed
  qed
qed

lemma syncQueueItem_failure:
  assumes present: "item_id q \<in> item_id ` set (mediaQueue st)"
    and fails: "transfer_outcome net q = Inl e"
  shows "fst (syncQueueItem net q st) =
           Inr (NotDone (item_id q) e (attempts q + 1 < maxAttempts q))"
proof -
  let ?f = "arrayBufferToFile (fileData q) (fileName q) (fileType q)"
  let ?Q1 = "\<lambda>it. attempts it = attempts q + 1"
  define st1 where "st1 = snd (beginUpload q st)"
  define st2 where "st2 = snd (transferFile net q ?f st1)"
  define st5 where "st5 = snd (markFailure q e st2)"
  have b: "beginUpload q st = (Inr (), st1)" and t1: "touched (item_id q) ?Q1 st st1"
    using touched_begin [OF present] by (simp_all add: st1_def prod_eq_iff)
  have tr: "transferFile net q ?f st1 = (transfer_outcome net q, st2)"
    and t2: "touched (item_id q) ?Q1 st st2"
    using touched_transfer [OF t1 present, of net] by (simp_all add: st2_def prod_eq_iff)
  have mf: "markFailure q e st2 = (Inr (), st5)"
    using touched_markFailure [OF t2 present, of e] by (simp_all add: st5_def prod_eq_iff)
  show ?thesis by (simp add: syncQueueItem_def Let_def b tr fails mf)
qed


lemma call_listeners_closed:
  "call_listeners cbs st =
     (case dropWhile (\<lambda>cb. \<not> cb_throws cb st) cbs of
        [] \<Rightarrow> None
      | cb # rest \<Rightarrow> Some (ListenerThrew (cb_id cb)),
      map (\<lambda>cb. (cb_id cb, st))
        (takeWhile (\<lambda>cb. \<not> cb_throws cb st) cbs @
         take 1 (dropWhile (\<lambda>cb. \<not> cb_throws cb st) cbs)))"
  by (induction cbs) (simp_all add: split_beta)

lemma call_listeners_returns:
  "\<forall>cb \<in> set cbs. \<not> cb_throws cb st \<Longrightarrow>
   call_listeners cbs st = (None, map (\<lambda>cb. (cb_id cb, st)) cbs)"
  by (induction cbs) simp_all


lemma db_notify [simp]: "db (snd (notifySyncStatusChange st s)) = db s"
  by (simp add: notifySyncStatusChange_def split_beta)

lemma status_notify [simp]: "syncStatus (snd (notifySyncStatusChange st s)) = st"
  by (simp add: notifySyncStatusChange_def split_beta)

lemma listeners_notify [simp]:
  "syncListeners (snd (notifySyncStatusChange st s)) = syncListeners s"
  by (simp add: notifySyncStatusChange_def split_beta)

lemma notify_returns:
  "\<forall>cb \<in> set (syncListeners s). \<not> cb_throws cb st \<Longrightarrow>
   notifySyncStatusChange st s =
     (Inr (), s\<lparr>syncStatus := st,
               callbackLog := callbackLog s @ map (\<lambda>cb. (cb_id cb, st)) (syncListeners s)\<rparr>)"
  by (simp add: notifySyncStatusChange_def call_listeners_returns)



text \<open>A pass when no listener throws: its result and the state it leaves.\<close>

lemma syncQueue_quiet:
  assumes "onLine ev" and "syncStatus s \<noteq> SYNCING" and "pending_read ev = None"
    and quiet: "\<forall>cb \<in> set (syncListeners s). \<forall>st. \<not> cb_throws cb st"
  shows "syncQueue ev s =
           (let rs = fst (sync_items (remote ev) (getPendingQueueItems (db s)) (db s));
                synced' = length (filter value_success rs);
                failed = length rs - synced';
                final = (if failed = 0 then SUCCESS else ERROR)
            in (Inr (synced', failed),
                s\<lparr>db := snd (sync_items (remote ev) (getPendingQueueItems (db s)) (db s)),
                  syncStatus := final,
                  callbackLog := callbackLog s @
                    map (\<lambda>cb. (cb_id cb, SYNCING)) (syncListeners s) @
                    map (\<lambda>cb. (cb_id cb, final)) (syncListeners s)\<rparr>))"
proof -
  have q: "\<And>st. \<forall>cb \<in> set (syncListeners s). \<not> cb_throws cb st" using quiet by blast
  show ?thesis
    using assms(1-3)
    by (cases "getPendingQueueItems (db s)")
       (simp_all add: syncQueue_def syncQueue_try_def Let_def split_beta notify_returns q)
qed


text \<open>Whatever the listeners do, a pass leaves the store as it was or as its transfers left it.\<close>

lemma snd_rethrow:
  "snd (case r of Inl e \<Rightarrow> (Inl e, x) | Inr u \<Rightarrow> (Inr c, x)) = x"
  by (cases r) simp_all


lemma syncQueue_try_db:
  "db (snd (syncQueue_try ev s)) = db s \<or>
   db (snd (syncQueue_try ev s)) =
     snd (sync_items (remote ev) (getPendingQueueItems (db s)) (db s))"
proof (cases "pending_read ev")
  case (Some e)
  then show ?thesis by (simp add: syncQueue_try_def)
next
  case None
  show ?thesis
  proof (cases "length (getPendingQueueItems (db s)) = 0")
    case True
    then show ?thesis using None by (simp add: syncQueue_try_def split_beta snd_rethrow)
  next
    case False
    then show ?thesis
      using None by (simp add: syncQueue_try_def Let_def split_beta snd_rethrow)
  qed
qed

lemma syncQueue_db:
  "db (snd (syncQueue ev s)) = db s \<or>
   db (snd (syncQueue ev s)) =
     snd (sync_items (remote ev) (getPendingQueueItems (db s)) (db s))"
proof -
  obtain r1 s1 where n1: "notifySyncStatusChange SYNCING s = (r1, s1)" by force
  have d1: "db s1 = db s" using db_notify [of SYNCING s] n1 by simp
  obtain r2 s2 where t: "syncQueue_try ev s1 = (r2, s2)" by force
  have d2: "db s2 = db s \<or>
            db s2 = snd (sync_items (remote ev) (getPendingQueueItems (db s)) (db s))"
    using syncQueue_try_db [of ev s1] t d1 by simp
  obtain r3 s3 where n3: "notifySyncStatusChange ERROR s2 = (r3, s3)" by force
  have d3: "db s3 = db s2" using db_notify [of ERROR s2] n3 by simp
  have "db (snd (syncQueue ev s)) = db s \<or> db (snd (syncQueue ev s)) = db s1 \<or>
        db (snd (syncQueue ev s)) = db s2"
    using n1 t n3 d3 by (simp add: syncQueue_def split: sum.splits)
  then show ?thesis using d1 d2 by auto
qed





text \<open>When no listener throws, a pass calls every listener at each of its status changes.\<close>

lemma syncQueue_notified:
  assumes quiet: "\<forall>cb \<in> set (syncListeners s). \<forall>st. \<not> cb_throws cb st"
  shows "pass_notified s (snd (syncQueue ev s))"
proof (cases "onLine ev \<and> syncStatus s \<noteq> SYNCING")
  case False
  then have "snd (syncQueue ev s) = s" by (auto simp: syncQueue_def)
  then show ?thesis by (simp add: pass_notified_def notified_def)
next
  case True
  have q: "\<And>st. \<forall>cb \<in> set (syncListeners s). \<not> cb_throws cb st" using quiet by blast
  show ?thesis
  proof (cases "pending_read ev")
    case None
    show ?thesis
      unfolding syncQueue_quiet [OF conjunct1 [OF True] conjunct2 [OF True] None quiet]
      by (simp add: pass_notified_def notified_def Let_def)
  next
    case (Some e)
    then have "snd (syncQueue ev s) =
                 s\<lparr>syncStatus := ERROR,
                   callbackLog := callbackLog s @
                     map (\<lambda>cb. (cb_id cb, SYNCING)) (syncListeners s) @
                     map (\<lambda>cb. (cb_id cb, ERROR)) (syncListeners s)\<rparr>"
      using True by (simp add: syncQueue_def syncQueue_try_def notify_returns q)
    then show ?thesis by (simp add: pass_notified_def notified_def)
  qed
qed

subsection \<open>Rounding to a double\<close>

text \<open>The binade is the floor of the binary logarithm, and the unit is a power of 2.\<close>

lemma binade_log:
  assumes "0 < x"
  shows "binade x = \<lfloor>log 2 x\<rfloor>"
proof (cases "1 \<le> x")
  case True
  define n where "n = nat \<lfloor>x\<rfloor>"
  define k where "k = floorlog 2 n"
  have n: "0 < n" using True by (simp add: n_def)
  have "(1::nat) < 2" by simp
  from floorlog_bounds [OF n this] have b: "2 ^ (k - 1) \<le> n" "n < 2 ^ k"
    unfolding k_def by blast+
  have "k \<noteq> 0" unfolding k_def floorlog_eq_zero_iff using n by simp
  then have k: "0 < k" by simp
  have nx: "real n \<le> x" "x < real n + 1"
    using True by (simp_all add: n_def)
  have p1: "(2::real) ^ (k - 1) \<le> real n" using b(1) by simp
  have "real (Suc n) \<le> real (2 ^ k)" using b(2) by (intro of_nat_mono) simp
  then have p2: "real n + 1 \<le> (2::real) ^ k" by simp
  have e1: "(2::real) powr real (k - 1) = 2 ^ (k - 1)" and e2: "(2::real) powr real k = 2 ^ k"
    by (simp_all add: powr_realpow)
  have lo: "2 powr real (k - 1) \<le> x" unfolding e1 using p1 nx by linarith
  have hi: "x < 2 powr real k" unfolding e2 using p2 nx by linarith
  have "\<lfloor>log 2 x\<rfloor> = int k - 1"
    using assms lo hi k by (simp add: floor_log_eq_powr_iff of_nat_diff)
  then show ?thesis using True by (simp add: binade_def n_def k_def)
next
  case False
  define y where "y = 1 / x"
  define m where "m = nat (\<lceil>y\<rceil> - 1)"
  define k where "k = floorlog 2 m"
  have y: "1 < y" using False assms by (simp add: y_def)
  then have c: "2 \<le> \<lceil>y\<rceil>" by (simp add: le_ceiling_iff)
  have m: "0 < m" using c by (simp add: m_def)
  have my: "real m < y" "y \<le> real m + 1"
    using c by (simp_all add: m_def) linarith+
  have "(1::nat) < 2" by simp
  from floorlog_bounds [OF m this] have b: "2 ^ (k - 1) \<le> m" "m < 2 ^ k"
    unfolding k_def by blast+
  have "k \<noteq> 0" unfolding k_def floorlog_eq_zero_iff using m by simp
  then have k: "0 < k" by simp
  have p1: "(2::real) ^ (k - 1) \<le> real m" using b(1) by simp
  have "real (Suc m) \<le> real (2 ^ k)" using b(2) by (intro of_nat_mono) simp
  then have p2: "real m + 1 \<le> (2::real) ^ k" by simp
  have ylo: "2 ^ (k - 1) < y" using p1 my by linarith
  have yhi: "y \<le> 2 ^ k" using p2 my by linarith
  have x: "x = 1 / y" using assms by (simp add: y_def)
  have e1: "(2::real) powr (- real k) = 1 / 2 ^ k"
    by (simp add: powr_minus powr_realpow inverse_eq_divide)
  have "(2::real) powr (- real (k - 1)) = 1 / 2 ^ (k - 1)"
    by (simp add: powr_minus powr_realpow inverse_eq_divide)
  moreover have "- real (k - 1) = - real k + 1" using k by (simp add: of_nat_diff)
  ultimately have e2: "(2::real) powr (- real k + 1) = 1 / 2 ^ (k - 1)" by (simp only:)
  have "1 / 2 ^ k \<le> 1 / y" using yhi y by (simp add: frac_le)
  then have lo: "2 powr (- real k) \<le> x" unfolding e1 x .
  have "1 / y < 1 / 2 ^ (k - 1)" using ylo by (simp add: frac_less2)
  then have hi: "x < 2 powr (- real k + 1)" unfolding e2 x .
  have "2 powr real_of_int (- int k) \<le> x \<and> x < 2 powr real_of_int (- int k + 1)"
    using lo hi by simp
  then have "\<lfloor>log 2 x\<rfloor> = - int k"
    using assms floor_log_eq_powr_iff [of x 2 "- int k"] by simp
  then show ?thesis using False by (simp add: binade_def y_def m_def k_def)
qed

lemma binary64_log:
  "binary64 x =
     (if x = 0 then 0
      else let ulp = 2 powr (of_int \<lfloor>log 2 \<bar>x\<bar>\<rfloor> - 52)
           in of_int (round_ties_even (x / ulp)) * ulp)"
proof (cases "x = 0")
  case True
  then show ?thesis by (simp add: binary64_def)
next
  case False
  then have "binade \<bar>x\<bar> = \<lfloor>log 2 \<bar>x\<bar>\<rfloor>" by (intro binade_log) simp
  moreover have "(2::real) powr (of_int \<lfloor>log 2 \<bar>x\<bar>\<rfloor> - 52) = 2 powi (\<lfloor>log 2 \<bar>x\<bar>\<rfloor> - 52)"
    using powr_real_of_int' [of 2 "\<lfloor>log 2 \<bar>x\<bar>\<rfloor> - 52"] by simp
  ultimately show ?thesis by (simp add: binary64_def)
qed

lemma round_ties_even_near: "\<bar>of_int (round_ties_even x) - x\<bar> \<le> 1 / 2"
proof -
  have "of_int \<lfloor>x\<rfloor> \<le> x" and "x < of_int \<lfloor>x\<rfloor> + 1" by linarith+
  then show ?thesis unfolding round_ties_even_def by (auto simp: abs_le_iff)
qed

lemma round_ties_even_le: "x \<le> of_int n \<Longrightarrow> round_ties_even x \<le> n"
proof -
  assume le: "x \<le> of_int n"
  have f: "\<lfloor>x\<rfloor> \<le> n" using le by (simp add: floor_le_iff)
  show ?thesis
  proof (cases "x = of_int \<lfloor>x\<rfloor>")
    case True
    then have "x - of_int \<lfloor>x\<rfloor> < 1 / 2" by simp
    then show ?thesis using f by (simp add: round_ties_even_def)
  next
    case False
    then have "of_int \<lfloor>x\<rfloor> < x" using of_int_floor_le [of x] by linarith
    then have "of_int \<lfloor>x\<rfloor> < (of_int n :: real)" using le by linarith
    then have "\<lfloor>x\<rfloor> < n" by simp
    then show ?thesis by (simp add: round_ties_even_def)
  qed
qed

lemma round_ties_even_ge: "of_int n \<le> x \<Longrightarrow> n \<le> round_ties_even x"
proof -
  assume "of_int n \<le> x"
  then have "n \<le> \<lfloor>x\<rfloor>" by (simp add: le_floor_iff)
  then show ?thesis by (simp add: round_ties_even_def)
qed

lemma powr_of_int_nonneg: "0 \<le> k \<Longrightarrow> (2::real) powr of_int k = of_int (2 ^ nat k)"
proof -
  assume k: "0 \<le> k"
  have "(2::real) powr of_int k = 2 powr real (nat k)" using k by simp
  also have "\<dots> = 2 ^ nat k" by (simp add: powr_realpow)
  finally show ?thesis by simp
qed

text \<open>The unit in the last place of the doubles around a positive real.\<close>

lemma ulp_facts:
  fixes x :: real
  assumes "0 < x"
  defines "u \<equiv> 2 powr (of_int \<lfloor>log 2 x\<rfloor> - 52)"
  shows "0 < u" and "binary64 x = of_int (round_ties_even (x / u)) * u"
    and "\<bar>binary64 x - x\<bar> \<le> u / 2" and "0 < binary64 x"
proof -
  show u: "0 < u" by (simp add: u_def)
  show b: "binary64 x = of_int (round_ties_even (x / u)) * u"
    using assms(1) by (simp add: binary64_log u_def Let_def)
  have "\<bar>of_int (round_ties_even (x / u)) - x / u\<bar> * u \<le> 1 / 2 * u"
    using round_ties_even_near [of "x / u"] u by (simp add: mult_right_mono)
  moreover have "\<bar>of_int (round_ties_even (x / u)) - x / u\<bar> * u =
                 \<bar>of_int (round_ties_even (x / u)) * u - x\<bar>"
  proof -
    have "\<bar>of_int (round_ties_even (x / u)) - x / u\<bar> * u =
          \<bar>(of_int (round_ties_even (x / u)) - x / u) * u\<bar>"
      using u by (simp add: abs_mult)
    also have "(of_int (round_ties_even (x / u)) - x / u) * u =
               of_int (round_ties_even (x / u)) * u - x"
      using u by (simp add: algebra_simps)
    finally show ?thesis .
  qed
  ultimately show "\<bar>binary64 x - x\<bar> \<le> u / 2" using b by simp
  have "2 powr of_int \<lfloor>log 2 x\<rfloor> \<le> 2 powr log 2 x" by (simp add: powr_le_cancel_iff)
  then have lo: "2 powr of_int \<lfloor>log 2 x\<rfloor> \<le> x" using assms(1) by simp
  have "u \<le> 2 powr of_int \<lfloor>log 2 x\<rfloor>" unfolding u_def by (rule powr_mono) simp_all
  then have "u \<le> x" using lo by linarith
  then have "of_int 1 \<le> x / u" using u by (simp add: pos_le_divide_eq)
  then have "1 \<le> round_ties_even (x / u)" by (rule round_ties_even_ge)
  then show "0 < binary64 x" using b u by simp
qed

lemma binary64_le:
  fixes x :: real
  assumes "0 < x" and "x \<le> M" and "M / 2 powr (of_int \<lfloor>log 2 x\<rfloor> - 52) = of_int n"
  shows "binary64 x \<le> M"
proof -
  define u :: real where "u = 2 powr (of_int \<lfloor>log 2 x\<rfloor> - 52)"
  have u: "0 < u" by (simp add: u_def)
  have "x / u \<le> M / u" using assms(2) u by (simp add: divide_right_mono)
  then have "x / u \<le> of_int n" using assms(3) by (simp add: u_def)
  then have "round_ties_even (x / u) \<le> n" by (rule round_ties_even_le)
  then have "of_int (round_ties_even (x / u)) * u \<le> of_int n * u"
    using u by (simp add: mult_right_mono)
  also have "of_int n * u = M" using assms(3) u by (simp add: u_def field_simps)
  finally show ?thesis using ulp_facts(2) [OF assms(1)] by (simp add: u_def)
qed

lemma binary64_unit:
  fixes x :: real
  assumes "0 < x" and "x \<le> 1"
  shows "binary64 x \<le> 1" and "(2::real) powr (of_int \<lfloor>log 2 x\<rfloor> - 52) \<le> 2 powr (- 52)"
proof -
  have "log 2 x \<le> 0" using assms by simp
  then have e: "\<lfloor>log 2 x\<rfloor> \<le> 0" by (simp add: floor_le_iff)
  show "(2::real) powr (of_int \<lfloor>log 2 x\<rfloor> - 52) \<le> 2 powr (- 52)"
    using e by (simp add: powr_le_cancel_iff)
  have "1 / (2::real) powr (of_int \<lfloor>log 2 x\<rfloor> - 52) = 2 powr of_int (52 - \<lfloor>log 2 x\<rfloor>)"
    by (simp add: powr_minus [symmetric] powr_diff field_simps)
  also have "\<dots> = of_int (2 ^ nat (52 - \<lfloor>log 2 x\<rfloor>))"
    using e by (intro powr_of_int_nonneg) simp
  finally show "binary64 x \<le> 1" using assms by (intro binary64_le [where M = 1]) 
qed

lemma binary64_hundred:
  fixes x :: real
  assumes "0 < x" and "x \<le> 100"
  shows "binary64 x \<le> 100" and "(2::real) powr (of_int \<lfloor>log 2 x\<rfloor> - 52) \<le> 2 powr (- 46)"
proof -
  have "x < 2 powr 7" using assms by simp
  then have "log 2 x < 7" using assms(1) by (simp add: log_less_iff)
  then have e: "\<lfloor>log 2 x\<rfloor> \<le> 6" by (simp add: floor_le_iff)
  show "(2::real) powr (of_int \<lfloor>log 2 x\<rfloor> - 52) \<le> 2 powr (- 46)"
    using e by (simp add: powr_le_cancel_iff)
  have "100 / (2::real) powr (of_int \<lfloor>log 2 x\<rfloor> - 52) = 100 * 2 powr of_int (52 - \<lfloor>log 2 x\<rfloor>)"
    by (simp add: powr_minus [symmetric] powr_diff field_simps)
  also have "\<dots> = 100 * of_int (2 ^ nat (52 - \<lfloor>log 2 x\<rfloor>))"
    using e by (subst powr_of_int_nonneg) simp_all
  also have "\<dots> = of_int (100 * 2 ^ nat (52 - \<lfloor>log 2 x\<rfloor>))" by simp
  finally show "binary64 x \<le> 100" using assms by (intro binary64_le [where M = 100])
qed

text \<open>The percentage that the progress callback computes.\<close>

lemma percent_facts:
  assumes "0 < b" and "b \<le> S"
  defines "p \<equiv> Math_round (js_mul (js_div (real b) (real S)) 100)"
  shows "0 \<le> p" and "p \<le> 100" and "\<bar>p - round (real b / real S * 100)\<bar> \<le> 1"
proof -
  define q where "q = real b / real S"
  define d1 where "d1 = binary64 q"
  define d2 where "d2 = binary64 (d1 * 100)"
  have p: "p = \<lfloor>d2 + 1 / 2\<rfloor>"
    by (simp add: p_def Math_round_def js_mul_def js_div_def d2_def d1_def q_def)
  have q: "0 < q" "q \<le> 1" using assms by (simp_all add: q_def)
  have d1: "0 < d1" "d1 \<le> 1"
    using ulp_facts(4) [OF q(1)] binary64_unit(1) [OF q] by (simp_all add: d1_def)
  have e1: "\<bar>d1 - q\<bar> \<le> 2 powr (- 52) / 2"
    unfolding d1_def using ulp_facts(3) [OF q(1)] binary64_unit(2) [OF q] by linarith
  have y: "0 < d1 * 100" "d1 * 100 \<le> 100" using d1 by simp_all
  have d2: "0 < d2" "d2 \<le> 100"
    using ulp_facts(4) [OF y(1)] binary64_hundred(1) [OF y] by (simp_all add: d2_def)
  have e2: "\<bar>d2 - d1 * 100\<bar> \<le> 2 powr (- 46) / 2"
    unfolding d2_def using ulp_facts(3) [OF y(1)] binary64_hundred(2) [OF y] by linarith
  have small: "(2::real) powr (- 52) \<le> 1 / 400" "(2::real) powr (- 46) \<le> 1 / 2"
    by (simp_all add: powr_neg_numeral)
  have close: "\<bar>d2 - q * 100\<bar> \<le> 1 / 2" using e1 e2 small by linarith
  show "0 \<le> p" using d2 by (simp add: p)
  have "d2 + 1 / 2 < 101" using d2 by simp
  then have "\<lfloor>d2 + 1 / 2\<rfloor> < 101" by (simp add: floor_less_iff)
  then show "p \<le> 100" by (simp add: p)
  have r: "round (real b / real S * 100) = \<lfloor>q * 100 + 1 / 2\<rfloor>" by (simp add: round_def q_def)
  define X where "X = q * 100 + 1 / 2"
  define Y where "Y = d2 + 1 / 2"
  have "Y \<le> X + 1" unfolding X_def Y_def using close by linarith
  then have "\<lfloor>Y\<rfloor> \<le> \<lfloor>X + 1\<rfloor>" by (rule floor_mono)
  then have a: "\<lfloor>Y\<rfloor> \<le> \<lfloor>X\<rfloor> + 1" by simp
  have "X \<le> Y + 1" unfolding X_def Y_def using close by linarith
  then have "\<lfloor>X\<rfloor> \<le> \<lfloor>Y + 1\<rfloor>" by (rule floor_mono)
  then have b: "\<lfloor>X\<rfloor> \<le> \<lfloor>Y\<rfloor> + 1" by simp
  have "\<bar>\<lfloor>Y\<rfloor> - \<lfloor>X\<rfloor>\<bar> \<le> 1" using a b by (simp add: abs_le_iff)
  then show "\<bar>p - round (real b / real S * 100)\<bar> \<le> 1"
    unfolding p r X_def Y_def .
qed

lemma binary64_eval:
  assumes "0 < x" and "2 powr of_int e \<le> x" and "x < 2 powr (of_int e + 1)"
  shows "binary64 x = of_int (round_ties_even (x / 2 powr (of_int e - 52))) * 2 powr (of_int e - 52)"
proof -
  have "\<lfloor>log 2 x\<rfloor> = e" using assms by (simp add: floor_log_eq_powr_iff)
  then show ?thesis using assms(1) by (simp add: binary64_log Let_def)
qed

subsection \<open>The chunked transfer in closed form\<close>

lemma chunk_retry_loop_unfolded:
  "chunk_retry_loop net n S i st en (Suc (Suc (Suc 0))) =
     (if chunk_ok net i (Suc (Suc (Suc 0)))
      then (None, [PostChunk i st en, OnProgress en S])
      else if chunk_ok net i (Suc (Suc 0))
      then (None, [PostChunk i st en, Backoff 2000, PostChunk i st en, OnProgress en S])
      else if chunk_ok net i (Suc 0)
      then (None, [PostChunk i st en, Backoff 2000, PostChunk i st en, Backoff 4000,
                   PostChunk i st en, OnProgress en S])
      else (Some (ChunkUploadFailed (i + 1) n),
            [PostChunk i st en, Backoff 2000, PostChunk i st en, Backoff 4000,
             PostChunk i st en]))"
  by (simp add: Let_def)

lemma chunk_retry_loop_3:
  "chunk_retry_loop net n S i (i * CHUNK_SIZE) (min (i * CHUNK_SIZE + CHUNK_SIZE) S) 3 =
     (if exhausted net i then Some (ChunkUploadFailed (i + 1) n) else None,
      spec_chunk_attempts net S i)"
proof -
  have e3: "(3::nat) = Suc (Suc (Suc 0))" and e2: "(2::nat) = Suc (Suc 0)" by simp_all
  have en: "min ((i + 1) * CHUNK_SIZE) S = min (i * CHUNK_SIZE + CHUNK_SIZE) S" by simp
  show ?thesis
    unfolding exhausted_def spec_chunk_attempts_def Let_def en
    unfolding e3 e2 One_nat_def chunk_retry_loop_unfolded
    by simp
qed

lemma find_upt_Some:
  "find P [j..<n] = Some i \<Longrightarrow> j \<le> i \<and> i < n"
  by (auto simp: find_Some_iff)

lemma chunk_loop_closed:
  "chunk_loop net n S j =
     (case find (exhausted net) [j..<n] of
        Some i \<Rightarrow> (Some (ChunkUploadFailed (i + 1) n),
                   concat (map (spec_chunk_attempts net S) [j..<Suc i]))
      | None \<Rightarrow> (None, concat (map (spec_chunk_attempts net S) [j..<n])))"
proof (induction net n S j rule: chunk_loop.induct)
  case (1 net n S j)
  show ?case
  proof (cases "j < n")
    case False
    then show ?thesis by (subst chunk_loop.simps) simp
  next
    case less: True
    then have upt: "[j..<n] = j # [Suc j..<n]" by (simp add: upt_conv_Cons)
    show ?thesis
    proof (cases "exhausted net j")
      case True
      then show ?thesis
        using less by (subst chunk_loop.simps) (simp add: chunk_retry_loop_3 upt)
    next
      case False
      have IH: "chunk_loop net n S (Suc j) =
         (case find (exhausted net) [Suc j..<n] of
            Some i \<Rightarrow> (Some (ChunkUploadFailed (i + 1) n),
                   concat (map (spec_chunk_attempts net S) [Suc j..<Suc i]))
          | None \<Rightarrow> (None, concat (map (spec_chunk_attempts net S) [Suc j..<n])))"
        using "1.IH" [OF less refl refl] False by (simp add: chunk_retry_loop_3)
      show ?thesis
      proof (cases "find (exhausted net) [Suc j..<n]")
        case None
        then show ?thesis
          using less False IH
          by (subst chunk_loop.simps) (simp add: chunk_retry_loop_3 upt)
      next
        case (Some i)
        then have "Suc j \<le> i" using find_upt_Some by blast
        then have "[j..<Suc i] = j # [Suc j..<Suc i]" by (simp add: upt_conv_Cons)
        then show ?thesis
          using less False IH Some
          by (subst chunk_loop.simps) (simp add: chunk_retry_loop_3 upt)
      qed
    qed
  qed
qed

lemma uploadMediaChunked_closed:
  "uploadMediaChunked net f = spec_chunked_transfer net (fsize f)"
  by (simp add: uploadMediaChunked_def spec_chunked_transfer_def chunk_loop_closed Let_def
      split: option.splits)

lemma chunk_indices_append:
  "chunk_indices (xs @ ys) = chunk_indices xs @ chunk_indices ys"
  by (induction xs rule: chunk_indices.induct) simp_all

lemma progress_calls_append:
  "progress_calls (xs @ ys) = progress_calls xs @ progress_calls ys"
  by (induction xs rule: progress_calls.induct) simp_all

lemma chunk_indices_attempts:
  "\<exists>m. 1 \<le> m \<and> m \<le> 3 \<and> chunk_indices (spec_chunk_attempts net S i) = replicate m i"
proof -
  have "chunk_indices (spec_chunk_attempts net S i) = replicate 1 i \<or>
        chunk_indices (spec_chunk_attempts net S i) = replicate 2 i \<or>
        chunk_indices (spec_chunk_attempts net S i) = replicate 3 i"
    by (simp add: spec_chunk_attempts_def Let_def numeral_2_eq_2 numeral_3_eq_3)
  then show ?thesis by force
qed

lemma count_list_replicate:
  "count_list (replicate m k) x = (if x = k then m else 0)"
  by (induction m) auto

lemma chunk_indices_range:
  "sorted (chunk_indices (concat (map (spec_chunk_attempts net S) [j..<k]))) \<and>
   (\<forall>x \<in> set (chunk_indices (concat (map (spec_chunk_attempts net S) [j..<k]))). x < k) \<and>
   (\<forall>x. count_list (chunk_indices (concat (map (spec_chunk_attempts net S) [j..<k]))) x \<le> 3)"
proof (induction k)
  case 0
  then show ?case by simp
next
  case (Suc k)
  let ?g = "chunk_indices (concat (map (spec_chunk_attempts net S) [j..<k]))"
  show ?case
  proof (cases "j \<le> k")
    case False
    then show ?thesis by simp
  next
    case True
    obtain m where m: "1 \<le> m" "m \<le> 3"
      and rep: "chunk_indices (spec_chunk_attempts net S k) = replicate m k"
      using chunk_indices_attempts by blast
    have eq: "chunk_indices (concat (map (spec_chunk_attempts net S) [j..<Suc k])) =
              ?g @ replicate m k"
      using True by (simp add: chunk_indices_append rep)
    have lt: "\<forall>x \<in> set ?g. x < k" using Suc.IH by blast
    have sorted: "sorted (?g @ replicate m k)"
      using Suc.IH lt by (auto simp: sorted_append less_imp_le)
    have below: "\<forall>x \<in> set (?g @ replicate m k). x < Suc k"
      using lt by auto
    have "k \<notin> set ?g" using lt by blast
    then have zero: "count_list ?g k = 0" by (rule count_notin)
    have count: "\<forall>x. count_list (?g @ replicate m k) x \<le> 3"
    proof
      fix x
      show "count_list (?g @ replicate m k) x \<le> 3"
        using Suc.IH zero m by (cases "x = k") (simp_all add: count_list_replicate)
    qed
    show ?thesis unfolding eq using sorted below count by blast
  qed
qed

lemma chunk_indices_transfer:
  "\<exists>k. chunk_indices (snd (spec_chunked_transfer net S)) =
        chunk_indices (concat (map (spec_chunk_attempts net S) [0..<k]))"
proof (cases "init_ok net")
  case False
  then have "chunk_indices (snd (spec_chunked_transfer net S)) =
             chunk_indices (concat (map (spec_chunk_attempts net S) [0..<0]))"
    by (simp add: spec_chunked_transfer_def Let_def)
  then show ?thesis by blast
next
  case True
  then show ?thesis
    by (cases "find (exhausted net) [0..<nat \<lceil>real S / real CHUNK_SIZE\<rceil>]")
       (auto simp: spec_chunked_transfer_def Let_def chunk_indices_append simp del: upt_Suc)
qed

lemma transfer_sorted:
  "sorted (chunk_indices (snd (spec_chunked_transfer net S))) \<and>
   count_list (chunk_indices (snd (spec_chunked_transfer net S))) x \<le> 3"
proof -
  obtain k where "chunk_indices (snd (spec_chunked_transfer net S)) =
        chunk_indices (concat (map (spec_chunk_attempts net S) [0..<k]))"
    using chunk_indices_transfer by blast
  then show ?thesis using chunk_indices_range [of net S 0 k] by simp
qed

lemma exhausted_fails:
  assumes "i < nat \<lceil>real S / real CHUNK_SIZE\<rceil>" and "exhausted net i"
  shows "\<exists>e. fst (spec_chunked_transfer net S) = Inl e \<and>
         PostFinalize \<notin> set (snd (spec_chunked_transfer net S))"
proof (cases "init_ok net")
  case False
  then show ?thesis by (simp add: spec_chunked_transfer_def Let_def)
next
  case True
  have "find (exhausted net) [0..<nat \<lceil>real S / real CHUNK_SIZE\<rceil>] \<noteq> None"
    using assms by (auto simp: find_None_iff)
  then obtain i0 where "find (exhausted net) [0..<nat \<lceil>real S / real CHUNK_SIZE\<rceil>] = Some i0"
    by blast
  then show ?thesis
    using True by (auto simp: spec_chunked_transfer_def Let_def spec_chunk_attempts_def simp del: upt_Suc)
qed

lemma quotient_le_imp:
  assumes "0 < c" and "real s / real c \<le> real n"
  shows "s \<le> n * c"
proof -
  have "real s \<le> real n * real c"
    using assms pos_divide_le_eq [of "real c" "real s" "real n"] by simp
  then have "real s \<le> real (n * c)" by simp
  then show ?thesis by (simp only: of_nat_le_iff)
qed

lemma less_quotient_imp:
  assumes "0 < c" and "real m < real s / real c"
  shows "m * c < s"
proof -
  have "real m * real c < real s"
    using assms pos_less_divide_eq [of "real c" "real m" "real s"] by simp
  then have "real (m * c) < real s" by simp
  then show ?thesis by (simp only: of_nat_less_iff)
qed

lemma ceil_bounds:
  assumes c: "0 < c" and s: "0 < s"
  shows "(nat \<lceil>real s / real c\<rceil> - 1) * c < s \<and> s \<le> nat \<lceil>real s / real c\<rceil> * c \<and>
         0 < nat \<lceil>real s / real c\<rceil>"
proof -
  define x where "x = real s / real c"
  define n where "n = nat \<lceil>x\<rceil>"
  have xpos: "0 < x" using c s by (simp add: x_def)
  then have cpos: "0 < \<lceil>x\<rceil>" by (simp add: ceiling_less_iff)
  then have n: "real n = of_int \<lceil>x\<rceil>" by (simp add: n_def)
  have npos: "0 < n" using cpos by (simp add: n_def)
  have "x \<le> of_int \<lceil>x\<rceil>" by (rule le_of_int_ceiling)
  then have "real s / real c \<le> real n" using n by (simp add: x_def)
  then have up: "s \<le> n * c" using c by (rule quotient_le_imp [rotated])
  have "of_int \<lceil>x\<rceil> - 1 < x" using ceiling_correct [of x] by simp
  then have "real n - 1 < x" using n by simp
  then have "real (n - 1) < real s / real c" using npos by (simp add: of_nat_diff x_def)
  then have lo: "(n - 1) * c < s" using c by (rule less_quotient_imp [rotated])
  show ?thesis using lo up npos by (simp add: n_def x_def)
qed

lemma attempts_events:
  "ev \<in> set (spec_chunk_attempts net S i) \<Longrightarrow>
   ev = PostChunk i (i * CHUNK_SIZE) (min ((i + 1) * CHUNK_SIZE) S) \<or>
   ev = OnProgress (min ((i + 1) * CHUNK_SIZE) S) S \<or> ev = Backoff 2000 \<or> ev = Backoff 4000"
  by (auto simp: spec_chunk_attempts_def Let_def split: if_splits)

lemma transfer_events:
  assumes "ev \<in> set (snd (spec_chunked_transfer net S))"
  shows "ev = PostInit (nat \<lceil>real S / real CHUNK_SIZE\<rceil>) \<or> ev = PostFinalize \<or>
         (\<exists>i < nat \<lceil>real S / real CHUNK_SIZE\<rceil>. ev \<in> set (spec_chunk_attempts net S i))"
proof (cases "init_ok net")
  case False
  then show ?thesis using assms by (simp add: spec_chunked_transfer_def Let_def)
next
  case True
  show ?thesis
  proof (cases "find (exhausted net) [0..<nat \<lceil>real S / real CHUNK_SIZE\<rceil>]")
    case None
    then show ?thesis
      using assms True by (auto simp: spec_chunked_transfer_def Let_def)
  next
    case (Some i0)
    then have "i0 < nat \<lceil>real S / real CHUNK_SIZE\<rceil>" using find_upt_Some by blast
    then show ?thesis
      using assms True Some
      by (auto simp: spec_chunked_transfer_def Let_def less_Suc_eq simp del: upt_Suc)
  qed
qed

lemma progress_calls_all:
  "\<forall>i < n. \<not> exhausted net i \<Longrightarrow>
   progress_calls (concat (map (spec_chunk_attempts net S) [0..<n])) =
     map (\<lambda>i. (min ((i + 1) * CHUNK_SIZE) S, S)) [0..<n]"
proof (induction n)
  case 0
  then show ?case by simp
next
  case (Suc n)
  have "\<not> exhausted net n" using Suc.prems by simp
  then have "progress_calls (spec_chunk_attempts net S n) = [(min ((n + 1) * CHUNK_SIZE) S, S)]"
    by (auto simp: spec_chunk_attempts_def exhausted_def Let_def)
  then show ?case
    using Suc by (simp add: progress_calls_append)
qed

lemma progress_calls_success:
  assumes "fst (spec_chunked_transfer net S) = Inr ()"
  shows "progress_calls (snd (spec_chunked_transfer net S)) =
           map (\<lambda>i. (min ((i + 1) * CHUNK_SIZE) S, S)) [0..<nat \<lceil>real S / real CHUNK_SIZE\<rceil>]"
proof -
  have init: "init_ok net"
    using assms by (auto simp: spec_chunked_transfer_def Let_def split: if_splits)
  have none: "find (exhausted net) [0..<nat \<lceil>real S / real CHUNK_SIZE\<rceil>] = None"
    using assms init
    by (cases "find (exhausted net) [0..<nat \<lceil>real S / real CHUNK_SIZE\<rceil>]")
       (auto simp: spec_chunked_transfer_def Let_def)
  then have "\<forall>i < nat \<lceil>real S / real CHUNK_SIZE\<rceil>. \<not> exhausted net i"
    by (auto simp: find_None_iff)
  then show ?thesis
    using init none
    by (simp add: spec_chunked_transfer_def Let_def progress_calls_append progress_calls_all)
qed

text \<open>After the progress calls of a trace, the item holds what the last of them wrote.\<close>

lemma run_progress_last:
  assumes "touched i Q st0 st" and "i \<in> item_id ` set (mediaQueue st0)"
  shows "touched i (if progress_calls evs = [] then Q
                    else progress_stored (last (progress_calls evs)))
           st0 (run_progress i evs st)"
  using assms
proof (induction evs arbitrary: st Q)
  case Nil
  then show ?case by simp
next
  case (Cons ev evs)
  show ?case
  proof (cases ev)
    case (OnProgress b t)
    have "touched i (progress_stored (b, t)) st0 (createProgressCallback i b t st)"
      unfolding createProgressCallback_def Let_def
      using touched_update [OF Cons.prems, of _ "progress_stored (b, t)"]
      by (simp add: progress_stored_def)
    from Cons.IH [OF this Cons.prems(2)] show ?thesis
      using OnProgress by (cases "progress_calls evs = []") simp_all
  qed (use Cons.IH [OF Cons.prems] in \<open>cases "progress_calls evs = []"; simp\<close>)+
qed

lemma progress_calls_set:
  "(b, t) \<in> set (progress_calls evs) \<longleftrightarrow> OnProgress b t \<in> set evs"
  by (induction evs rule: progress_calls.induct) auto

lemma chunk_bounds:
  assumes pos: "0 < S" and i: "i < nat \<lceil>real S / real CHUNK_SIZE\<rceil>"
  shows "i * CHUNK_SIZE < min ((i + 1) * CHUNK_SIZE) S"
proof -
  have c: "0 < CHUNK_SIZE" by (simp add: CHUNK_SIZE_def)
  have "i \<le> nat \<lceil>real S / real CHUNK_SIZE\<rceil> - 1" using i by simp
  then have "i * CHUNK_SIZE \<le> (nat \<lceil>real S / real CHUNK_SIZE\<rceil> - 1) * CHUNK_SIZE"
    by (rule mult_le_mono1)
  then have "i * CHUNK_SIZE < S" using ceil_bounds [OF c pos] by linarith
  then show ?thesis using c by simp
qed

subsection \<open>The commands are runs\<close>

lemma steps_append: "steps (xs @ ys) sys = steps ys (steps xs sys)"
  by (simp add: steps_def)

lemma steps_Cons: "steps (a # acts) sys = steps acts (step a sys)"
  by (simp add: steps_def)

lemma steps_Nil: "steps [] sys = sys"
  by (simp add: steps_def)

lemma run_steps: "run acts = steps acts (empty_store, [])"
  by (simp add: run_def steps_def)

lemma progress_steps:
  assumes "q \<in> set fetched"
  shows "steps (map (\<lambda>(b, t). Progress q b t) (progress_calls evs)) (st, fetched) =
           (run_progress (item_id q) evs st, fetched)"
  using assms
proof (induction evs arbitrary: st)
  case Nil
  then show ?case by (simp add: steps_Nil)
next
  case (Cons ev evs)
  then show ?case by (cases ev) (simp_all add: steps_Cons)
qed

lemma transfer_steps:
  assumes "q \<in> set fetched"
  shows "\<exists>acts. steps acts (st, fetched) =
           (snd (transferFile net q (arrayBufferToFile (fileData q) (fileName q) (fileType q)) st),
            fetched)"
proof (cases "usesChunkedPath q")
  case True
  then show ?thesis
    using progress_steps [OF assms] by (auto simp: transferFile_def split_beta)
next
  case False
  show ?thesis
  proof (cases "uploadMedia net (arrayBufferToFile (fileData q) (fileName q) (fileType q))")
    case (Inl e)
    then have "steps [] (st, fetched) =
           (snd (transferFile net q (arrayBufferToFile (fileData q) (fileName q) (fileType q)) st),
            fetched)"
      using False by (simp add: transferFile_def steps_Nil)
    then show ?thesis by blast
  next
    case (Inr u)
    then have "steps [WholeDone q] (st, fetched) =
           (snd (transferFile net q (arrayBufferToFile (fileData q) (fileName q) (fileType q)) st),
            fetched)"
      using False assms by (simp add: transferFile_def steps_Cons steps_Nil)
    then show ?thesis by blast
  qed
qed

lemma steps_compose:
  "steps xs sys = sys' \<Longrightarrow> steps ys sys' = sys'' \<Longrightarrow> steps (xs @ ys) sys = sys''"
  by (simp add: steps_append)

lemma failure_steps:
  assumes "q \<in> set fetched" and "steps acts (st, fetched) = (st', fetched)"
  shows "\<exists>acts'. steps acts' (st, fetched) = (snd (markFailure q e st'), fetched)"
proof -
  have "steps [MarkFailure q e] (st', fetched) = (snd (markFailure q e st'), fetched)"
    using assms(1) by (simp add: steps_Cons steps_Nil)
  then show ?thesis using steps_compose [OF assms(2)] by blast
qed

lemma syncQueueItem_steps:
  assumes q: "q \<in> set fetched"
  shows "\<exists>acts. steps acts (st, fetched) = (snd (syncQueueItem net q st), fetched)"
proof -
  let ?f = "arrayBufferToFile (fileData q) (fileName q) (fileType q)"
  obtain r1 st1 where b: "beginUpload q st = (r1, st1)" by (cases "beginUpload q st")
  have s1: "steps [Begin q] (st, fetched) = (st1, fetched)"
    using q b by (simp add: steps_Cons steps_Nil)
  show ?thesis
  proof (cases r1)
    case (Inl e)
    have "snd (syncQueueItem net q st) = snd (markFailure q e st1)"
      by (simp add: syncQueueItem_def Let_def b Inl split: prod.splits sum.splits)
    then show ?thesis using failure_steps [OF q s1, of e] by simp
  next
    case r1: (Inr u1)
    obtain r2 st2 where t: "transferFile net q ?f st1 = (r2, st2)"
      by (cases "transferFile net q ?f st1")
    obtain acts2 where "steps acts2 (st1, fetched) = (st2, fetched)"
      using transfer_steps [OF q, of st1 net] t by auto
    then obtain A2 where s2: "steps A2 (st, fetched) = (st2, fetched)"
      using steps_compose [OF s1] by blast
    show ?thesis
    proof (cases r2)
      case (Inl e)
      have "snd (syncQueueItem net q st) = snd (markFailure q e st2)"
        by (simp add: syncQueueItem_def Let_def b r1 t Inl split: prod.splits sum.splits)
      then show ?thesis using failure_steps [OF q s2, of e] by simp
    next
      case r2: (Inr u2)
      obtain r3 st3 where m: "markSynced q st2 = (r3, st3)" by (cases "markSynced q st2")
      have "steps [MarkSynced q] (st2, fetched) = (st3, fetched)"
        using q m by (simp add: steps_Cons steps_Nil)
      then obtain A3 where s3: "steps A3 (st, fetched) = (st3, fetched)"
        using steps_compose [OF s2] by blast
      show ?thesis
      proof (cases r3)
        case (Inl e)
        have "snd (syncQueueItem net q st) = snd (markFailure q e st3)"
          by (simp add: syncQueueItem_def Let_def b r1 t r2 m Inl split: prod.splits sum.splits)
        then show ?thesis using failure_steps [OF q s3, of e] by simp
      next
        case r3: (Inr u3)
        obtain r4 st4 where c: "checkAndUpdateRecordSyncStatus (submissionId q) st3 = (r4, st4)"
          by (cases "checkAndUpdateRecordSyncStatus (submissionId q) st3")
        have "steps [Reconcile q] (st3, fetched) = (st4, fetched)"
          using q c by (simp add: steps_Cons steps_Nil)
        then obtain A4 where s4: "steps A4 (st, fetched) = (st4, fetched)"
          using steps_compose [OF s3] by blast
        show ?thesis
        proof (cases r4)
          case (Inl e)
          have "snd (syncQueueItem net q st) = snd (markFailure q e st4)"
            by (simp add: syncQueueItem_def Let_def b r1 t r2 m r3 c Inl split: prod.splits sum.splits)
          then show ?thesis using failure_steps [OF q s4, of e] by simp
        next
          case (Inr u4)
          have "snd (syncQueueItem net q st) = st4"
            by (simp add: syncQueueItem_def Let_def b r1 t r2 m r3 c Inr)
          then show ?thesis using s4 by blast
        qed
      qed
    qed
  qed
qed

lemma sync_items_steps:
  assumes "set qs \<subseteq> set fetched"
  shows "\<exists>acts. steps acts (st, fetched) = (snd (sync_items nets qs st), fetched)"
  using assms
proof (induction qs arbitrary: st)
  case Nil
  have "steps [] (st, fetched) = (snd (sync_items nets [] st), fetched)" by (simp add: steps_Nil)
  then show ?case by blast
next
  case (Cons q qs)
  define st1 where "st1 = snd (syncQueueItem (nets (item_id q)) q st)"
  obtain A1 where a1: "steps A1 (st, fetched) = (st1, fetched)"
    using syncQueueItem_steps [of q fetched st "nets (item_id q)"] Cons.prems
    by (auto simp: st1_def)
  obtain A2 where a2: "steps A2 (st1, fetched) = (snd (sync_items nets qs st1), fetched)"
    using Cons.IH [of st1] Cons.prems by auto
  have "snd (sync_items nets (q # qs) st) = snd (sync_items nets qs st1)"
    by (simp add: st1_def split_beta)
  then show ?case using steps_compose [OF a1 a2] by metis
qed

lemma syncQueue_steps:
  "\<exists>acts fetched'. steps acts (db s, fetched) = (db (snd (syncQueue ev s)), fetched')"
proof (cases "db (snd (syncQueue ev s)) = db s")
  case True
  then have "steps [] (db s, fetched) = (db (snd (syncQueue ev s)), fetched)"
    by (simp add: steps_Nil)
  then show ?thesis by blast
next
  case False
  let ?qs = "getPendingQueueItems (db s)"
  have d: "db (snd (syncQueue ev s)) = snd (sync_items (remote ev) ?qs (db s))"
    using False syncQueue_db [of ev s] by simp
  have f: "steps [Fetch] (db s, fetched) = (db s, fetched @ ?qs)"
    by (simp add: steps_Cons steps_Nil)
  obtain A where "steps A (db s, fetched @ ?qs) =
                    (snd (sync_items (remote ev) ?qs (db s)), fetched @ ?qs)"
    using sync_items_steps [of ?qs "fetched @ ?qs" "db s" "remote ev"] by auto
  then show ?thesis using steps_compose [OF f] d by metis
qed

lemma enqueueSubmission_steps:
  "\<exists>acts fetched'. steps acts (db s, fetched) = (db (snd (enqueueSubmission ev sd s)), fetched')"
proof -
  obtain r db' where st: "storeSubmission ev sd (db s) = (r, db')"
    by (cases "storeSubmission ev sd (db s)")
  have e: "steps [Enqueue ev sd] (db s, fetched) = (db', fetched)"
    using st by (simp add: steps_Cons steps_Nil)
  show ?thesis
  proof (cases "onLine ev \<and> (\<exists>recordId. r = Inr recordId)")
    case False
    then have "db (snd (enqueueSubmission ev sd s)) = db'"
      using st by (cases r) (auto simp: enqueueSubmission_def)
    then show ?thesis using e by metis
  next
    case True
    then have "db (snd (enqueueSubmission ev sd s)) = db (snd (syncQueue ev (s\<lparr>db := db'\<rparr>)))"
      using st by (auto simp: enqueueSubmission_def)
    moreover obtain A fetched' where
      "steps A (db', fetched) = (db (snd (syncQueue ev (s\<lparr>db := db'\<rparr>))), fetched')"
      using syncQueue_steps [of "s\<lparr>db := db'\<rparr>" fetched ev] by auto
    ultimately show ?thesis using steps_compose [OF e] by metis
  qed
qed

lemma retryFailedItems_steps:
  "\<exists>acts fetched'. steps acts (db s, fetched) = (db (snd (retryFailedItems ev s)), fetched')"
proof -
  obtain r db' where st: "reset_items (failedItems_of (db s)) (db s) = (r, db')"
    by (cases "reset_items (failedItems_of (db s)) (db s)")
  have e: "steps [Retry] (db s, fetched) = (db', fetched)"
    using st by (simp add: steps_Cons steps_Nil)
  show ?thesis
  proof (cases "r = None \<and> length (failedItems_of (db s)) > 0 \<and> onLine ev")
    case False
    then have "db (snd (retryFailedItems ev s)) = db'"
      using st by (cases r) (auto simp: retryFailedItems_def Let_def)
    then show ?thesis using e by metis
  next
    case True
    then have "db (snd (retryFailedItems ev s)) = db (snd (syncQueue ev (s\<lparr>db := db'\<rparr>)))"
      using st by (auto simp: retryFailedItems_def Let_def)
    moreover obtain A fetched' where
      "steps A (db', fetched) = (db (snd (syncQueue ev (s\<lparr>db := db'\<rparr>))), fetched')"
      using syncQueue_steps [of "s\<lparr>db := db'\<rparr>" fetched ev] by auto
    ultimately show ?thesis using steps_compose [OF e] by metis
  qed
qed

text \<open>
  Every state that the three commands (each with its pass run to the end, item after item)
  produce from a state of a run is a state of a run: what holds in every state of a run
  holds after every sequence of commands.
\<close>

lemma commands_stay_in_runs:
  assumes "run acts = (db s, fetched)"
  shows "(\<exists>acts' fetched'. run (acts @ acts') = (db (snd (enqueueSubmission ev sd s)), fetched')) \<and>
         (\<exists>acts' fetched'. run (acts @ acts') = (db (snd (syncQueue ev s)), fetched')) \<and>
         (\<exists>acts' fetched'. run (acts @ acts') = (db (snd (retryFailedItems ev s)), fetched'))"
  using assms enqueueSubmission_steps [of s fetched ev sd] syncQueue_steps [of s fetched ev]
    retryFailedItems_steps [of s fetched ev]
  by (simp add: run_steps steps_append)

subsection \<open>The scenarios, evaluated\<close>

lemma video_chunks: "nat \<lceil>real (fsize video) / real CHUNK_SIZE\<rceil> = 5"
  by (simp add: video_def CHUNK_SIZE_def)

lemma upt_5: "[0..<5] = [0, 1, 2, 3, 4]" and upt_4: "[0..<4] = [0, 1, 2, 3]"
  by (simp_all add: upt_rec)

lemma video_chunk3_fails:
  "uploadMediaChunked net_chunk3_fails video =
     (Inl (ChunkUploadFailed 4 5),
      [PostInit 5,
       PostChunk 0 0 5242880, OnProgress 5242880 23068672,
       PostChunk 1 5242880 10485760, OnProgress 10485760 23068672,
       PostChunk 2 10485760 15728640, OnProgress 15728640 23068672,
       PostChunk 3 15728640 20971520, Backoff 2000,
       PostChunk 3 15728640 20971520, Backoff 4000,
       PostChunk 3 15728640 20971520])"
  unfolding uploadMediaChunked_closed spec_chunked_transfer_def video_chunks Let_def upt_5
  by (simp add: net_chunk3_fails_def exhausted_def upt_4 spec_chunk_attempts_def CHUNK_SIZE_def video_def Let_def)

lemma video_uploaded:
  "uploadMediaChunked net_ok video =
     (Inr (),
      [PostInit 5,
       PostChunk 0 0 5242880, OnProgress 5242880 23068672,
       PostChunk 1 5242880 10485760, OnProgress 10485760 23068672,
       PostChunk 2 10485760 15728640, OnProgress 15728640 23068672,
       PostChunk 3 15728640 20971520, OnProgress 20971520 23068672,
       PostChunk 4 20971520 23068672, OnProgress 23068672 23068672,
       PostFinalize])"
  unfolding uploadMediaChunked_closed spec_chunked_transfer_def video_chunks Let_def upt_5
  by (simp add: net_ok_def exhausted_def spec_chunk_attempts_def CHUNK_SIZE_def video_def Let_def)

lemma video_file: "arrayBufferToFile (fileData video_item) (fileName video_item) (fileType video_item) = video"
  by (simp add: arrayBufferToFile_def video_item_def video_def)







text \<open>The percentage of the progress callback at three arguments.\<close>

lemma binary64_one: "binary64 1 = 1"
  by (subst binary64_eval [where e = 0]) (simp_all add: round_ties_even_def powr_neg_numeral)

lemma binary64_100: "binary64 100 = 100"
  by (subst binary64_eval [where e = 6]) (simp_all add: round_ties_even_def powr_neg_numeral)

lemma percent_all: "Math_round (js_mul (js_div 23068672 23068672) 100) = 100"
  by (simp add: js_div_def js_mul_def Math_round_def binary64_one binary64_100)

lemma percent_first: "Math_round (js_mul (js_div 5242880 23068672) 100) = 23"
proof -
  have d1: "binary64 (5242880 / 23068672) = 8188362958855447 / 36028797018963968"
    by (subst binary64_eval [where e = "- 3"])
       (simp_all add: round_ties_even_def powr_neg_numeral)
  have d2: "binary64 (8188362958855447 / 36028797018963968 * 100) =
            3198579280802909 / 140737488355328"
    by (subst binary64_eval [where e = 4]) (simp_all add: round_ties_even_def powr_neg_numeral)
  show ?thesis unfolding js_div_def js_mul_def Math_round_def d1 d2 by simp
qed

text \<open>
  23 of the 40 chunks of a file of 200 MiB are 57.5 percent of it. The double nearest to
  0.575 is below it, its product with 100 is rounded to the double below 57.5, and
  \<open>Math.round\<close> gives 57.
\<close>

lemma percent_below_half: "Math_round (js_mul (js_div 120586240 209715200) 100) = 57"
proof -
  have d1: "binary64 (120586240 / 209715200) = 5179139571476070 / 9007199254740992"
    by (subst binary64_eval [where e = "- 1"])
       (simp_all add: round_ties_even_def powr_neg_numeral)
  have d2: "binary64 (5179139571476070 / 9007199254740992 * 100) =
            8092405580431359 / 140737488355328"
    by (subst binary64_eval [where e = 5]) (simp_all add: round_ties_even_def powr_neg_numeral)
  show ?thesis unfolding js_div_def js_mul_def Math_round_def d1 d2 by simp
qed

lemma video_progress:
  "mediaQueue (run_progress 2 [PostInit 5, PostChunk 0 0 5242880, OnProgress 5242880 23068672]
                 two_files_store) =
     [photo_item 0 Pending None, video_item\<lparr>uploadProgress := 23, bytesUploaded := 5242880\<rparr>]"
  by (simp add: createProgressCallback_def updateQueueItem_def two_files_store_def percent_first)
     (simp add: photo_item_def video_item_def)

lemma movie_progress:
  "mediaQueue (createProgressCallback 1 120586240 209715200 movie_store) =
     [movie_item\<lparr>uploadProgress := 57, bytesUploaded := 120586240\<rparr>]"
  by (simp add: createProgressCallback_def updateQueueItem_def movie_store_def percent_below_half)
     (simp add: movie_item_def)

lemma net_ok_transfer: "fst (spec_chunked_transfer net_ok S) = Inr ()"
proof -
  have "find (exhausted net_ok) [0..<nat \<lceil>real S / real CHUNK_SIZE\<rceil>] = None"
    by (simp add: find_None_iff exhausted_def net_ok_def)
  then show ?thesis by (simp add: spec_chunked_transfer_def Let_def net_ok_def)
qed

lemma movie_chunk_22:
  "OnProgress 120586240 209715200 \<in> set (snd (uploadMediaChunked net_ok movie))"
proof -
  have n: "nat \<lceil>real 209715200 / real CHUNK_SIZE\<rceil> = 40" by (simp add: CHUNK_SIZE_def)
  have "(120586240, 209715200) \<in>
          (\<lambda>i. (min ((i + 1) * CHUNK_SIZE) 209715200, 209715200)) ` set [0..<40]"
    by (rule image_eqI [where x = 22]) (simp_all add: CHUNK_SIZE_def)
  then have "(120586240, 209715200) \<in>
               set (progress_calls (snd (spec_chunked_transfer net_ok 209715200)))"
    unfolding progress_calls_success [OF net_ok_transfer] n by (simp only: set_map)
  then show ?thesis
    by (simp add: progress_calls_set uploadMediaChunked_closed movie_def)
qed

lemma storeSubmission_one_file:
  "storeSubmission (env_of on net) one_file empty_store = (Inr 1, photo_store 0 Pending None)"
  by (simp add: storeSubmission_def env_of_def one_file_def photo_def createRecord_def
      enqueueMedia_def empty_store_def shouldUseChunkedUpload_def photo_store_def photo_item_def)

lemma storeSubmission_two_files:
  "storeSubmission (env_of on net) two_files empty_store =
     (Inr 1,
      \<lparr>records = [\<lparr>title = ''t'', description = ''d'', mediaFiles = [photo, video],
                   record_id = 1, synced = False\<rparr>],
       mediaQueue = [photo_item 0 Pending None, video_item], recordsKey = 1, mediaQueueKey = 2\<rparr>)"
  by (simp add: storeSubmission_def env_of_def two_files_def photo_def video_def createRecord_def
      enqueueMedia_def empty_store_def shouldUseChunkedUpload_def photo_item_def video_item_def)

lemma storeSubmission_no_files:
  "storeSubmission (env_of on net) no_files empty_store = (Inr 1, childless_store)"
  by (simp add: storeSubmission_def env_of_def no_files_def createRecord_def
      empty_store_def childless_store_def)

text \<open>The retry of the second file of \<open>two_files\<close>, and the passes of the listeners.\<close>

lemma run_retry_acts:
  "run retry_acts =
     (two_files_store\<lparr>mediaQueue := [photo_item 0 Pending None, video_item_again]\<rparr>,
      [photo_item 0 Pending None, video_item, photo_item 0 Pending None, video_item_again])"
  by (simp add: run_def retry_acts_def storeSubmission_two_files getPendingQueueItems_def
      beginUpload_def markFailure_def updateQueueItem_def two_files_store_def)
     (simp add: photo_item_def video_item_def video_item_again_def)

lemma video_again_transfer:
  "transferFile net_ok video_item_again video two_files_store =
     (Inr (),
      two_files_store\<lparr>mediaQueue := [photo_item 0 Pending None,
        video_item\<lparr>uploadProgress := 100, bytesUploaded := 23068672\<rparr>]\<rparr>)"
  unfolding transferFile_def video_uploaded
  by (simp add: usesChunkedPath_def video_item_again_def createProgressCallback_def
      updateQueueItem_def two_files_store_def percent_all)
     (simp add: photo_item_def video_item_def)

lemma photo_pass:
  "sync_items (remote (env_of True net_ok)) [photo_item 0 Pending None]
     (photo_store 0 Pending None) =
     ([Inr (Done 1)],
      \<lparr>records = [\<lparr>title = ''t'', description = ''d'', mediaFiles = [photo],
                   record_id = 1, synced = True\<rparr>],
       mediaQueue = [(photo_item 1 Synced None)\<lparr>uploadProgress := 100,
                                               bytesUploaded := 2097152\<rparr>],
       recordsKey = 1, mediaQueueKey = 1\<rparr>)"
  unfolding sync_items.simps syncQueueItem_def Let_def
  by (simp add: env_of_def beginUpload_def transferFile_def usesChunkedPath_def
      arrayBufferToFile_def shouldUseChunkedUpload_def uploadMedia_def net_ok_def
      wholeUploaded_def markSynced_def checkAndUpdateRecordSyncStatus_def
      getQueueItemsBySubmissionId_def updateRecord_def updateQueueItem_def photo_store_def
      photo_item_def)

lemma photo_pending:
  "getPendingQueueItems (photo_store 0 Pending None) = [photo_item 0 Pending None]"
  by (simp add: getPendingQueueItems_def photo_store_def photo_item_def)

lemma run_exhaust_acts:
  "fst (run exhaust_acts) = photo_store 5 Failed (Some HttpError)"
  by (simp add: run_def exhaust_acts_def storeSubmission_one_file getPendingQueueItems_def
      beginUpload_def markFailure_def updateQueueItem_def photo_store_def photo_item_def)

lemma total_size: "foldl (\<lambda>sum f. sum + fsize f) n fs = n + sum_list (map fsize fs)"
  by (induction fs arbitrary: n) simp_all

text \<open>
  In no state of a run does \<open>retryFailedItems\<close> select an item: a failed item has used
  all its attempts, and the filter asks for fewer.
\<close>

lemma retry_selects_nothing: "failedItems_of (fst (run acts)) = []"
  using sys_ok_run [of acts] by (auto simp: sys_ok_def failedItems_of_ok split: prod.splits)

subsection \<open>The claims\<close>

text \<open>
  C1, as the code has it. If \<open>enqueueSubmission\<close> fails because the total size of the files
  exceeds the available storage, or because the write of the record fails, then it throws
  and the state is as before: no record and no queue item is written.
\<close>

theorem enqueue_rejected_writes_nothing:
  assumes "storage_available ev < int (sum_list (map fsize (mediaFiles sd))) \<or>
           record_write ev \<noteq> None"
  shows "(\<exists>e. fst (enqueueSubmission ev sd s) = Inl e) \<and> snd (enqueueSubmission ev sd s) = s"
proof (cases "storage_available ev < int (sum_list (map fsize (mediaFiles sd)))")
  case True
  then show ?thesis
    by (simp add: enqueueSubmission_def storeSubmission_def total_size)
next
  case False
  then obtain e where "record_write ev = Some e" using assms by auto
  then show ?thesis
    using False by (simp add: enqueueSubmission_def storeSubmission_def total_size createRecord_def)
qed

theorem enqueue_rejected_writes_nothing_witness:
  "storage_available env_full < int (sum_list (map fsize (mediaFiles one_file))) \<and>
   enqueueSubmission env_full one_file initial_state = (Inl StorageQuotaExceeded, initial_state)"
proof -
  have h: "storage_available env_full < int (sum_list (map fsize (mediaFiles one_file)))"
    by (simp add: env_full_def env_of_def one_file_def photo_def)
  have "fst (enqueueSubmission env_full one_file initial_state) = Inl StorageQuotaExceeded"
    by (simp add: enqueueSubmission_def storeSubmission_def env_full_def env_of_def one_file_def
        photo_def rethrown_def handleQuotaError_def)
  then show ?thesis
    using h enqueue_rejected_writes_nothing [of env_full one_file initial_state]
    by (simp add: prod_eq_iff)
qed

text \<open>
  C1 fails as stated. A submission of two files whose second queue item cannot be written:
  \<open>enqueueSubmission\<close> throws the error of the store, and the record stays in the store
  with one queue item for its two files.
\<close>

theorem enqueue_partial_write:
  "length (mediaFiles two_files) = 2 \<and>
   fst (enqueueSubmission env_second_write_fails two_files initial_state) =
     Inl (StoreFailure False False) \<and>
   map record_id
     (records (db (snd (enqueueSubmission env_second_write_fails two_files initial_state)))) = [1] \<and>
   mediaQueue (db (snd (enqueueSubmission env_second_write_fails two_files initial_state))) =
     [photo_item 0 Pending None]"
  by (simp add: enqueueSubmission_def storeSubmission_def env_second_write_fails_def env_of_def
      two_files_def photo_def video_def createRecord_def enqueueMedia_def empty_store_def
      initial_state_def shouldUseChunkedUpload_def photo_item_def rethrown_def)

text \<open>
  C2. In every state of a run (the writes of \<open>enqueueSubmission\<close> and the updates of the
  coordinator, one at a time, in any order), every stored queue item has
  \<open>0 \<le> attempts \<le> maxAttempts\<close>, and \<open>attempts = maxAttempts\<close> when its status is
  \<open>failed\<close>. The states that \<open>enqueueSubmission\<close>, \<open>syncQueue\<close> and
  \<open>retryFailedItems\<close> produce are among them (\<open>commands_stay_in_runs\<close>).
\<close>

theorem attempts_bounded:
  "item \<in> set (mediaQueue (fst (run acts))) \<Longrightarrow>
   0 \<le> attempts item \<and> attempts item \<le> maxAttempts item \<and>
   (status item = Failed \<longrightarrow> attempts item = maxAttempts item)"
  using sys_ok_run [of acts]
  by (auto simp: sys_ok_def list_all_iff item_ok_def split: prod.splits)

theorem attempts_bounded_witness:
  "photo_item 5 Failed (Some HttpError) \<in> set (mediaQueue (fst (run exhaust_acts))) \<and>
   status (photo_item 5 Failed (Some HttpError)) = Failed \<and>
   attempts (photo_item 5 Failed (Some HttpError)) =
     maxAttempts (photo_item 5 Failed (Some HttpError))"
  using attempts_bounded [of "photo_item 5 Failed (Some HttpError)" exhaust_acts]
  by (simp add: run_exhaust_acts photo_store_def) (simp add: photo_item_def)

text \<open>
  C3. Single-flight guard: when \<open>syncQueue\<close> is called while the sync status is
  \<open>syncing\<close>, it returns the counts \<open>(0, 0)\<close> and leaves the whole state as it is: no
  queue item changes, so no attempt counter is incremented and no status changes.
\<close>

theorem syncQueue_single_flight:
  "syncStatus s = SYNCING \<Longrightarrow> syncQueue ev s = (Inr (0, 0), s)"
  by (simp add: syncQueue_def)

theorem syncQueue_single_flight_witness:
  "syncStatus busy_state = SYNCING \<and>
   getPendingQueueItems (db busy_state) = [photo_item 0 Pending None] \<and>
   syncQueue (env_of True net_ok) busy_state = (Inr (0, 0), busy_state)"
  using syncQueue_single_flight [of busy_state "env_of True net_ok"]
  by (simp add: busy_state_def getPendingQueueItems_def photo_store_def photo_item_def)

text \<open>
  C4 fails on the code. The queue item of \<open>exhaust_acts\<close> has failed five times: its status
  is \<open>failed\<close> and its attempts equal \<open>maxAttempts\<close>. \<open>retryFailedItems\<close> selects only
  failed items with \<open>attempts < maxAttempts\<close>, so it leaves this item failed, with its
  error, and starts no pass.
\<close>

theorem retryFailedItems_skips_exhausted:
  "db exhausted_state = fst (run exhaust_acts) \<and>
   mediaQueue (db exhausted_state) = [photo_item 5 Failed (Some HttpError)] \<and>
   status (photo_item 5 Failed (Some HttpError)) = Failed \<and>
   attempts (photo_item 5 Failed (Some HttpError)) =
     maxAttempts (photo_item 5 Failed (Some HttpError)) \<and>
   retryFailedItems (env_of True net_ok) exhausted_state = (Inr (0, 0), exhausted_state)"
  by (simp add: run_exhaust_acts)
     (simp add: retryFailedItems_def failedItems_of_def getAllQueueItems_def exhausted_state_def
      photo_store_def photo_item_def)

text \<open>
  C5 fails as stated. The record of a submission without files has no child; the
  reconciliation, run on it, finds every child synced and sets its flag.
\<close>

theorem childless_record_reconciled:
  "getQueueItemsBySubmissionId 1 childless_store = [] \<and>
   map synced (records childless_store) = [False] \<and>
   map synced (records (snd (checkAndUpdateRecordSyncStatus 1 childless_store))) = [True]"
  by (simp add: childless_store_def getQueueItemsBySubmissionId_def
      checkAndUpdateRecordSyncStatus_def updateRecord_def)

text \<open>
  C5, as the code has it. The coordinator runs the reconciliation only for the parent of a
  queue item that it fetched, so it never runs it on a record without children: in every
  state of a run, a record with no child queue item has \<open>synced = false\<close>.
\<close>

theorem childless_record_not_synced:
  "r \<in> set (records (fst (run acts))) \<Longrightarrow>
   getQueueItemsBySubmissionId (record_id r) (fst (run acts)) = [] \<Longrightarrow> \<not> synced r"
proof
  assume r: "r \<in> set (records (fst (run acts)))"
    and none: "getQueueItemsBySubmissionId (record_id r) (fst (run acts)) = []"
    and s: "synced r"
  have "record_id r \<in> submissionId ` set (mediaQueue (fst (run acts)))"
    using sys_ok_run [of acts] r s by (auto simp: sys_ok_def list_all_iff split: prod.splits)
  then show False
    using none by (auto simp: getQueueItemsBySubmissionId_def filter_empty_conv)
qed

theorem childless_record_not_synced_witness:
  "records (fst (run [Enqueue (env_of True net_ok) no_files, Fetch])) = records childless_store \<and>
   getQueueItemsBySubmissionId 1 (fst (run [Enqueue (env_of True net_ok) no_files, Fetch])) = [] \<and>
   \<not> synced (hd (records childless_store))"
  using childless_record_not_synced
    [of "hd (records childless_store)" "[Enqueue (env_of True net_ok) no_files, Fetch]"]
  by (simp add: run_def storeSubmission_no_files)
     (simp add: childless_store_def getQueueItemsBySubmissionId_def)

text \<open>
  C6 fails as stated. The persisted percentage is not \<open>round (bytesUploaded / S * 100)\<close>
  everywhere: the code computes the quotient and the product in double precision before it
  rounds. For a file of 200 MiB the progress call after the chunk with index 22 reports
  120586240 of 209715200 bytes, which is 57.5 percent and rounds to 58; the callback
  stores 57.
\<close>

theorem progress_not_exact_rounding:
  "fsize movie = 209715200 \<and>
   min ((22 + 1) * CHUNK_SIZE) (fsize movie) = 120586240 \<and>
   OnProgress 120586240 209715200 \<in> set (snd (uploadMediaChunked net_ok movie)) \<and>
   mediaQueue (createProgressCallback 1 120586240 209715200 movie_store) =
     [movie_item\<lparr>uploadProgress := 57, bytesUploaded := 120586240\<rparr>] \<and>
   round (real 120586240 / real 209715200 * 100) = 58"
  using movie_chunk_22 movie_progress
  by (simp add: movie_def CHUNK_SIZE_def round_def)

text \<open>
  C6, as the code has it. For a file of size \<open>S > 0\<close> and the chunk size \<open>C\<close> of 5 MiB,
  the chunked path announces \<open>n = ceil(S / C)\<close> chunks, the number with
  \<open>(n - 1) * C < S \<le> n * C\<close>; every chunk it sends, with index \<open>i\<close>, is the nonempty
  slice from \<open>i * C\<close> to \<open>min ((i + 1) * C) S\<close>; every progress call reports the end of
  a chunk, \<open>min ((i + 1) * C) S\<close>, with the total \<open>S\<close>, and a transfer that succeeds
  reports the chunks \<open>0, ..., n - 1\<close> in this order. The transfer of a queue item on the
  chunked path runs the progress callback of the item at these calls, and at every moment
  of the transfer after the first progress call (\<open>pre\<close> is the trace so far) the item
  in the store holds the \<open>bytesUploaded\<close> of the last call, the end of a chunk, and as
  percentage \<open>Math.round\<close> of the double-precision \<open>(bytesUploaded / S) * 100\<close>, which
  lies between 0 and 100 and is at most one away from the exact
  \<open>round (bytesUploaded / S * 100)\<close>. Byte counts are below \<open>2 ^ 53\<close>, where the
  integers and the ceiling of the quotient are the same in double precision.
\<close>

theorem chunk_arithmetic:
  assumes "0 < fsize f" and "qid \<in> item_id ` set (mediaQueue st)"
  shows "let S = fsize f; C = 5 * 1024 * 1024; n = nat \<lceil>real S / real C\<rceil>;
             result = uploadMediaChunked net f; evs = snd result
         in hd evs = PostInit n \<and> 0 < n \<and> (n - 1) * C < S \<and> S \<le> n * C \<and>
            (\<forall>i s e. PostChunk i s e \<in> set evs \<longrightarrow>
               i < n \<and> s = i * C \<and> e = min ((i + 1) * C) S \<and> s < e) \<and>
            (\<forall>b t. OnProgress b t \<in> set evs \<longrightarrow>
               t = S \<and> (\<exists>i<n. b = min ((i + 1) * C) S)) \<and>
            (fst result = Inr () \<longrightarrow>
               progress_calls evs = map (\<lambda>i. (min ((i + 1) * C) S, S)) [0..<n]) \<and>
            (usesChunkedPath q \<longrightarrow>
               transferFile net q f st = (fst result, run_progress (item_id q) evs st)) \<and>
            (\<forall>pre post. evs = pre @ post \<and> progress_calls pre \<noteq> [] \<longrightarrow>
               map item_id (mediaQueue (run_progress qid pre st)) = map item_id (mediaQueue st) \<and>
               (\<forall>it \<in> set (mediaQueue (run_progress qid pre st)).
                  item_id it = qid \<longrightarrow>
                  bytesUploaded it = fst (last (progress_calls pre)) \<and>
                  (\<exists>i<n. bytesUploaded it = min ((i + 1) * C) S) \<and>
                  uploadProgress it =
                    Math_round (js_mul (js_div (real (bytesUploaded it)) (real S)) 100) \<and>
                  0 \<le> uploadProgress it \<and> uploadProgress it \<le> 100 \<and>
                  \<bar>uploadProgress it - round (real (bytesUploaded it) / real S * 100)\<bar> \<le> 1))"
proof -
  define S where "S = fsize f"
  define n where "n = nat \<lceil>real S / real CHUNK_SIZE\<rceil>"
  define evs where "evs = snd (spec_chunked_transfer net S)"
  have C: "5 * 1024 * 1024 = CHUNK_SIZE" by (simp add: CHUNK_SIZE_def)
  have c: "0 < CHUNK_SIZE" by (simp add: CHUNK_SIZE_def)
  have pos: "0 < S" using assms(1) by (simp add: S_def)
  have first: "hd evs = PostInit n"
    by (simp add: evs_def n_def spec_chunked_transfer_def Let_def split: option.splits)
  have bounds: "0 < n \<and> (n - 1) * CHUNK_SIZE < S \<and> S \<le> n * CHUNK_SIZE"
    using ceil_bounds [OF c pos] by (simp add: n_def)
  have sends: "\<forall>i s e. PostChunk i s e \<in> set evs \<longrightarrow>
      i < n \<and> s = i * CHUNK_SIZE \<and> e = min ((i + 1) * CHUNK_SIZE) S \<and> s < e"
  proof (intro allI impI)
    fix i s e
    assume "PostChunk i s e \<in> set evs"
    then obtain j where j: "j < n" and mem: "PostChunk i s e \<in> set (spec_chunk_attempts net S j)"
      using transfer_events [of "PostChunk i s e" net S] by (auto simp: evs_def n_def)
    have eq: "i = j \<and> s = j * CHUNK_SIZE \<and> e = min ((j + 1) * CHUNK_SIZE) S"
      using attempts_events [OF mem] by simp
    then show "i < n \<and> s = i * CHUNK_SIZE \<and> e = min ((i + 1) * CHUNK_SIZE) S \<and> s < e"
      using j chunk_bounds [OF pos, of j] by (simp add: n_def)
  qed
  have call: "t = S \<and> (\<exists>i<n. b = min ((i + 1) * CHUNK_SIZE) S) \<and> 0 < b \<and> b \<le> S"
    if called: "OnProgress b t \<in> set evs" for b t
  proof -
    obtain j where j: "j < n" and mem: "OnProgress b t \<in> set (spec_chunk_attempts net S j)"
      using called transfer_events [of "OnProgress b t" net S] by (auto simp: evs_def n_def)
    have eq: "b = min ((j + 1) * CHUNK_SIZE) S \<and> t = S"
      using attempts_events [OF mem] by simp
    have "j * CHUNK_SIZE < b" using eq chunk_bounds [OF pos, of j] j by (simp add: n_def)
    then have "0 < b" by simp
    then show ?thesis using eq j by auto
  qed
  have progress: "\<forall>b t. OnProgress b t \<in> set evs \<longrightarrow>
      t = S \<and> (\<exists>i<n. b = min ((i + 1) * CHUNK_SIZE) S)"
    using call by blast
  have success: "fst (spec_chunked_transfer net S) = Inr () \<longrightarrow>
      progress_calls evs = map (\<lambda>i. (min ((i + 1) * CHUNK_SIZE) S, S)) [0..<n]"
    using progress_calls_success [of net S] by (simp add: evs_def n_def)
  have path: "usesChunkedPath q \<longrightarrow>
      transferFile net q f st =
        (fst (spec_chunked_transfer net S), run_progress (item_id q) evs st)"
    by (simp add: transferFile_def uploadMediaChunked_closed split_beta evs_def S_def)
  have stored: "\<forall>pre post. evs = pre @ post \<and> progress_calls pre \<noteq> [] \<longrightarrow>
      map item_id (mediaQueue (run_progress qid pre st)) = map item_id (mediaQueue st) \<and>
      (\<forall>it \<in> set (mediaQueue (run_progress qid pre st)).
         item_id it = qid \<longrightarrow>
         bytesUploaded it = fst (last (progress_calls pre)) \<and>
         (\<exists>i<n. bytesUploaded it = min ((i + 1) * CHUNK_SIZE) S) \<and>
         uploadProgress it =
           Math_round (js_mul (js_div (real (bytesUploaded it)) (real S)) 100) \<and>
         0 \<le> uploadProgress it \<and> uploadProgress it \<le> 100 \<and>
         \<bar>uploadProgress it - round (real (bytesUploaded it) / real S * 100)\<bar> \<le> 1)"
  proof (intro allI impI)
    fix pre post
    assume a: "evs = pre @ post \<and> progress_calls pre \<noteq> []"
    obtain b t where bt: "last (progress_calls pre) = (b, t)" by force
    have "(b, t) \<in> set (progress_calls pre)" using a bt last_in_set by metis
    then have "OnProgress b t \<in> set evs" using a by (simp add: progress_calls_set)
    from call [OF this] have t: "t = S" and i: "\<exists>i<n. b = min ((i + 1) * CHUNK_SIZE) S"
      and b: "0 < b" "b \<le> S"
      by simp_all
    have t0: "touched qid (\<lambda>it. True) st st" by (simp add: touched_def)
    have tt: "touched qid (progress_stored (b, t)) st (run_progress qid pre st)"
      using run_progress_last [OF t0 assms(2), of pre] a bt by simp
    have item: "bytesUploaded it = fst (last (progress_calls pre)) \<and>
         (\<exists>i<n. bytesUploaded it = min ((i + 1) * CHUNK_SIZE) S) \<and>
         uploadProgress it =
           Math_round (js_mul (js_div (real (bytesUploaded it)) (real S)) 100) \<and>
         0 \<le> uploadProgress it \<and> uploadProgress it \<le> 100 \<and>
         \<bar>uploadProgress it - round (real (bytesUploaded it) / real S * 100)\<bar> \<le> 1"
      if mem: "it \<in> set (mediaQueue (run_progress qid pre st))" and id: "item_id it = qid"
      for it
    proof -
      have "progress_stored (b, t) it" using tt mem id by (auto simp: touched_def)
      then have bytes: "bytesUploaded it = b"
        and up: "uploadProgress it = Math_round (js_mul (js_div (real b) (real S)) 100)"
        using t by (simp_all add: progress_stored_def)
      show ?thesis
        unfolding bytes up using bt i percent_facts [OF b] by simp
    qed
    show "map item_id (mediaQueue (run_progress qid pre st)) = map item_id (mediaQueue st) \<and>
      (\<forall>it \<in> set (mediaQueue (run_progress qid pre st)).
         item_id it = qid \<longrightarrow>
         bytesUploaded it = fst (last (progress_calls pre)) \<and>
         (\<exists>i<n. bytesUploaded it = min ((i + 1) * CHUNK_SIZE) S) \<and>
         uploadProgress it =
           Math_round (js_mul (js_div (real (bytesUploaded it)) (real S)) 100) \<and>
         0 \<le> uploadProgress it \<and> uploadProgress it \<le> 100 \<and>
         \<bar>uploadProgress it - round (real (bytesUploaded it) / real S * 100)\<bar> \<le> 1)"
      using tt item unfolding touched_def by blast
  qed
  show ?thesis
    unfolding Let_def C uploadMediaChunked_closed
    using first bounds sends progress success path stored
    unfolding evs_def n_def S_def by blast
qed

theorem chunk_arithmetic_witness:
  "0 < fsize video \<and> 2 \<in> item_id ` set (mediaQueue two_files_store) \<and>
   uploadMediaChunked net_ok video =
     (Inr (),
      [PostInit 5,
       PostChunk 0 0 5242880, OnProgress 5242880 23068672,
       PostChunk 1 5242880 10485760, OnProgress 10485760 23068672,
       PostChunk 2 10485760 15728640, OnProgress 15728640 23068672,
       PostChunk 3 15728640 20971520, OnProgress 20971520 23068672,
       PostChunk 4 20971520 23068672, OnProgress 23068672 23068672,
       PostFinalize]) \<and>
   progress_calls [PostInit 5, PostChunk 0 0 5242880, OnProgress 5242880 23068672] =
     [(5242880, 23068672)] \<and>
   mediaQueue (run_progress 2 [PostInit 5, PostChunk 0 0 5242880, OnProgress 5242880 23068672]
                 two_files_store) =
     [photo_item 0 Pending None, video_item\<lparr>uploadProgress := 23, bytesUploaded := 5242880\<rparr>] \<and>
   round (real 5242880 / real 23068672 * 100) = 23 \<and>
   usesChunkedPath video_item_again \<and>
   transferFile net_ok video_item_again video two_files_store =
     (Inr (),
      two_files_store\<lparr>mediaQueue := [photo_item 0 Pending None,
        video_item\<lparr>uploadProgress := 100, bytesUploaded := 23068672\<rparr>]\<rparr>)"
proof -
  have h1: "0 < fsize video" by (simp add: video_def)
  have h2: "2 \<in> item_id ` set (mediaQueue two_files_store)"
    by (simp add: two_files_store_def video_item_def)
  have p: "progress_calls [PostInit 5, PostChunk 0 0 5242880, OnProgress 5242880 23068672] =
             [(5242880, 23068672)]"
    by simp
  have r: "round (real 5242880 / real 23068672 * 100) = 23" by (simp add: round_def)
  have u: "usesChunkedPath video_item_again"
    by (simp add: usesChunkedPath_def video_item_again_def video_item_def)
  show ?thesis
    using chunk_arithmetic [OF h1 h2, of net_ok video_item_again] h1 h2 p r u
    by (simp only: video_uploaded video_progress video_again_transfer simp_thms)
qed



text \<open>
  C8. \<open>uploadMediaChunked\<close> does what the specification words: it sends the chunks in the
  order of their index, each at most three times, pausing \<open>2 ^ k\<close> seconds after the
  \<open>k\<close>-th failure of a chunk before trying it again, and it stops at the first chunk whose
  three tries fail, where the transfer fails without a finalize request. The indices of the
  requests never decrease, so no earlier chunk is sent again after a later one.
\<close>

theorem chunked_transfer_protocol:
  "uploadMediaChunked net f = spec_chunked_transfer net (fsize f) \<and>
   sorted (chunk_indices (snd (uploadMediaChunked net f))) \<and>
   count_list (chunk_indices (snd (uploadMediaChunked net f))) i \<le> 3 \<and>
   (i < nat \<lceil>real (fsize f) / real CHUNK_SIZE\<rceil> \<and> exhausted net i \<longrightarrow>
      (\<exists>e. fst (uploadMediaChunked net f) = Inl e) \<and>
      PostFinalize \<notin> set (snd (uploadMediaChunked net f)))"
  unfolding uploadMediaChunked_closed
  using transfer_sorted [of net "fsize f" i] exhausted_fails [of i "fsize f" net]
  by blast

theorem chunked_transfer_protocol_witness:
  "3 < nat \<lceil>real (fsize video) / real CHUNK_SIZE\<rceil> \<and> exhausted net_chunk3_fails 3 \<and>
   fst (uploadMediaChunked net_chunk3_fails video) = Inl (ChunkUploadFailed 4 5) \<and>
   chunk_indices (snd (uploadMediaChunked net_chunk3_fails video)) = [0, 1, 2, 3, 3, 3] \<and>
   PostFinalize \<notin> set (snd (uploadMediaChunked net_chunk3_fails video))"
  using chunked_transfer_protocol [of net_chunk3_fails video 3, THEN conjunct2]
  by (simp add: video_chunks video_chunk3_fails) (simp add: exhausted_def net_chunk3_fails_def)

text \<open>
  C9. \<open>enqueueSubmission\<close> stores the chunking flag \<open>size > 10 MiB\<close> on the queue item.
  Take a queue item \<open>q\<close> of any state of a run, as it is stored or as a pass fetched it
  and hands it to \<open>syncQueueItem\<close>. Its flag is that of its size; the item with its id
  has the same flag and the same size in every later state, stored or fetched for a
  retry; and the transfer of \<open>q\<close> takes the path of the flag: \<open>transferFile\<close> is the
  chunked upload with its progress calls when the flag is set and the whole-payload upload
  when it is not, and the attempt of \<open>syncQueueItem\<close> succeeds only if the upload on that
  path did, and fails with the error of that upload.
\<close>

theorem transfer_mode_fixed:
  assumes "q \<in> set (mediaQueue (fst (run acts))) \<union> set (snd (run acts))"
  shows "useChunked q = (fileSize q > 10 * 1024 * 1024) \<and>
         (\<forall>q' \<in> set (mediaQueue (fst (run (acts @ later)))) \<union> set (snd (run (acts @ later))).
            item_id q' = item_id q \<longrightarrow>
            useChunked q' = useChunked q \<and> fileSize q' = fileSize q) \<and>
         transferFile net q f st =
           (if useChunked q
            then (fst (uploadMediaChunked net f),
                  run_progress (item_id q) (snd (uploadMediaChunked net f)) st)
            else (case uploadMedia net f of
                    Inl e \<Rightarrow> (Inl e, st)
                  | Inr u \<Rightarrow> wholeUploaded q f st)) \<and>
         (item_id q \<in> item_id ` set (mediaQueue st) \<longrightarrow>
            (let file = arrayBufferToFile (fileData q) (fileName q) (fileType q);
                 upload = (if useChunked q then fst (uploadMediaChunked net file)
                           else uploadMedia net file)
             in (value_success (fst (syncQueueItem net q st)) \<longrightarrow> upload = Inr ()) \<and>
                (\<forall>e. upload = Inl e \<longrightarrow>
                   fst (syncQueueItem net q st) =
                     Inr (NotDone (item_id q) e (attempts q + 1 < maxAttempts q)))))"
proof -
  have ok: "item_ok q"
    using assms sys_ok_run [of acts]
    by (auto simp: sys_ok_def list_all_iff snapshot_ok_def split: prod.splits)
  then have flag: "useChunked q = (fileSize q > 10 * 1024 * 1024)"
    by (simp add: item_ok_def)
  have mode: "usesChunkedPath q = useChunked q"
    using ok
    by (auto simp: item_ok_def usesChunkedPath_def arrayBufferToFile_def shouldUseChunkedUpload_def)
  have later: "\<forall>q' \<in> set (mediaQueue (fst (run (acts @ later)))) \<union> set (snd (run (acts @ later))).
            item_id q' = item_id q \<longrightarrow>
            useChunked q' = useChunked q \<and> fileSize q' = fileSize q"
  proof (intro ballI impI)
    fix q'
    assume "q' \<in> set (mediaQueue (fst (run (acts @ later)))) \<union> set (snd (run (acts @ later)))"
      and "item_id q' = item_id q"
    with assms have "enqueued_part q' = enqueued_part q" by (rule enqueued_part_fixed)
    then show "useChunked q' = useChunked q \<and> fileSize q' = fileSize q"
      by (simp add: enqueued_part_def)
  qed
  have path: "transferFile net q f st =
           (if useChunked q
            then (fst (uploadMediaChunked net f),
                  run_progress (item_id q) (snd (uploadMediaChunked net f)) st)
            else (case uploadMedia net f of
                    Inl e \<Rightarrow> (Inl e, st)
                  | Inr u \<Rightarrow> wholeUploaded q f st))"
    by (simp add: transferFile_def mode split_beta)
  have out: "transfer_outcome net q =
               (if useChunked q
                then fst (uploadMediaChunked net
                            (arrayBufferToFile (fileData q) (fileName q) (fileType q)))
                else uploadMedia net (arrayBufferToFile (fileData q) (fileName q) (fileType q)))"
    by (simp add: transfer_outcome_def mode)
  have attempt: "item_id q \<in> item_id ` set (mediaQueue st) \<longrightarrow>
            (let file = arrayBufferToFile (fileData q) (fileName q) (fileType q);
                 upload = (if useChunked q then fst (uploadMediaChunked net file)
                           else uploadMedia net file)
             in (value_success (fst (syncQueueItem net q st)) \<longrightarrow> upload = Inr ()) \<and>
                (\<forall>e. upload = Inl e \<longrightarrow>
                   fst (syncQueueItem net q st) =
                     Inr (NotDone (item_id q) e (attempts q + 1 < maxAttempts q))))"
  proof
    assume present: "item_id q \<in> item_id ` set (mediaQueue st)"
    show "let file = arrayBufferToFile (fileData q) (fileName q) (fileType q);
                 upload = (if useChunked q then fst (uploadMediaChunked net file)
                           else uploadMedia net file)
             in (value_success (fst (syncQueueItem net q st)) \<longrightarrow> upload = Inr ()) \<and>
                (\<forall>e. upload = Inl e \<longrightarrow>
                   fst (syncQueueItem net q st) =
                     Inr (NotDone (item_id q) e (attempts q + 1 < maxAttempts q)))"
      unfolding Let_def out [symmetric]
      using syncQueueItem_touched [OF present, of net] syncQueueItem_failure [OF present, of net]
      by blast
  qed
  show ?thesis using flag later path attempt by blast
qed

theorem transfer_mode_fixed_witness:
  "video_item_again \<in> set (mediaQueue (fst (run retry_acts))) \<union> set (snd (run retry_acts)) \<and>
   video_item \<in> set (snd (run retry_acts)) \<and>
   attempts video_item = 0 \<and> attempts video_item_again = 1 \<and>
   item_id video_item_again = item_id video_item \<and>
   useChunked video_item \<and> useChunked video_item_again \<and>
   item_id video_item_again \<in> item_id ` set (mediaQueue two_files_store) \<and>
   uploadMedia net_chunk3_fails video = Inr () \<and>
   fst (uploadMediaChunked net_chunk3_fails video) = Inl (ChunkUploadFailed 4 5) \<and>
   fst (transferFile net_chunk3_fails video_item_again video two_files_store) =
     Inl (ChunkUploadFailed 4 5) \<and>
   fst (syncQueueItem net_chunk3_fails video_item_again two_files_store) =
     Inr (NotDone 2 (ChunkUploadFailed 4 5) True)"
proof -
  have h: "video_item_again \<in> set (mediaQueue (fst (run retry_acts))) \<union> set (snd (run retry_acts))"
    and v: "video_item \<in> set (snd (run retry_acts))"
    by (simp_all add: run_retry_acts)
  have a: "attempts video_item = 0" "attempts video_item_again = 1"
    "item_id video_item_again = item_id video_item" "item_id video_item = 2"
    "maxAttempts video_item_again = 5"
    "useChunked video_item" "useChunked video_item_again"
    by (simp_all add: video_item_again_def video_item_def)
  have p: "item_id video_item_again \<in> item_id ` set (mediaQueue two_files_store)"
    by (simp add: two_files_store_def video_item_again_def video_item_def)
  have f: "arrayBufferToFile (fileData video_item_again) (fileName video_item_again)
             (fileType video_item_again) = video"
    using video_file by (simp add: video_item_again_def)
  have w: "uploadMedia net_chunk3_fails video = Inr ()"
    by (simp add: uploadMedia_def net_chunk3_fails_def)
  have c: "fst (uploadMediaChunked net_chunk3_fails video) = Inl (ChunkUploadFailed 4 5)"
    by (simp add: video_chunk3_fails)
  show ?thesis
    using transfer_mode_fixed [OF h, of "[]" net_chunk3_fails video two_files_store] h v p w c
    by (simp add: a f Let_def)
qed

text \<open>
  C10 fails as stated. Nothing in \<open>notifySyncStatusChange\<close> catches what a listener
  throws. Two listeners are registered and the first throws: when a pass sets the status
  to \<open>syncing\<close>, the first listener is called and the second is not; the pass ends there,
  with the status left at \<open>syncing\<close> and the pending item not attempted.
\<close>

theorem listener_throws_stops_notification:
  "syncListeners faulty_listener_state = [throwing_listener 1, quiet_listener 2] \<and>
   syncStatus faulty_listener_state = IDLE \<and>
   syncQueue (env_of True net_ok) faulty_listener_state =
     (Inl (ListenerThrew 1),
      faulty_listener_state\<lparr>syncStatus := SYNCING, callbackLog := [(1, SYNCING)]\<rparr>)"
  by (simp add: syncQueue_def notifySyncStatusChange_def faulty_listener_state_def env_of_def
      throwing_listener_def quiet_listener_def)

text \<open>
  C10, as the code has it. Registering a callback with \<open>onSyncStatusChange\<close> adds it to
  the listeners and calls it once, at once, with the current sync status; nothing else
  changes. A status change (\<open>notifySyncStatusChange\<close>, the only place that assigns the
  status) calls the registered listeners with the new status, in the order of
  registration, up to and including the first that throws. When no registered listener
  throws, every status change calls all of them: the change of the \<open>offline\<close> handler, and
  the changes of a pass, which are none, or \<open>syncing\<close> and then \<open>success\<close> or \<open>error\<close>,
  whether the pass is started by \<open>syncQueue\<close>, \<open>enqueueSubmission\<close>,
  \<open>retryFailedItems\<close> or the \<open>online\<close> handler.
\<close>

theorem status_subscription:
  "snd (onSyncStatusChange cb s) =
     s\<lparr>syncListeners := syncListeners s @ [cb],
       callbackLog := callbackLog s @ [(cb_id cb, syncStatus s)]\<rparr> \<and>
   snd (notifySyncStatusChange st s) =
     s\<lparr>syncStatus := st,
       callbackLog := callbackLog s @
         map (\<lambda>c. (cb_id c, st))
           (takeWhile (\<lambda>c. \<not> cb_throws c st) (syncListeners s) @
            take 1 (dropWhile (\<lambda>c. \<not> cb_throws c st) (syncListeners s)))\<rparr> \<and>
   ((\<forall>c \<in> set (syncListeners s). \<forall>st. \<not> cb_throws c st) \<longrightarrow>
      notified s [st] (snd (notifySyncStatusChange st s)) \<and>
      notified s [IDLE] (snd (offline_handler s)) \<and>
      pass_notified s (snd (syncQueue ev s)) \<and>
      pass_notified s (snd (enqueueSubmission ev sd s)) \<and>
      pass_notified s (snd (retryFailedItems ev s)) \<and>
      pass_notified s (online_handler ev s))"
proof (intro conjI impI)
  show "snd (onSyncStatusChange cb s) =
     s\<lparr>syncListeners := syncListeners s @ [cb],
       callbackLog := callbackLog s @ [(cb_id cb, syncStatus s)]\<rparr>"
    by (simp add: onSyncStatusChange_def)
  show "snd (notifySyncStatusChange st s) =
     s\<lparr>syncStatus := st,
       callbackLog := callbackLog s @
         map (\<lambda>c. (cb_id c, st))
           (takeWhile (\<lambda>c. \<not> cb_throws c st) (syncListeners s) @
            take 1 (dropWhile (\<lambda>c. \<not> cb_throws c st) (syncListeners s)))\<rparr>"
    by (simp add: notifySyncStatusChange_def call_listeners_closed)
next
  assume quiet: "\<forall>c \<in> set (syncListeners s). \<forall>st. \<not> cb_throws c st"
  have n: "\<And>st. notified s [st] (snd (notifySyncStatusChange st s))"
    using quiet by (simp add: notify_returns notified_def)
  show "notified s [st] (snd (notifySyncStatusChange st s))" by (rule n)
  show "notified s [IDLE] (snd (offline_handler s))" unfolding offline_handler_def by (rule n)
  have pass: "pass_notified s (snd (syncQueue ev (s\<lparr>db := d\<rparr>)))" for d
    using syncQueue_notified [of "s\<lparr>db := d\<rparr>" ev] quiet
    by (simp add: pass_notified_def notified_def)
  show "pass_notified s (snd (syncQueue ev s))" using pass [of "db s"] by simp
  then show "pass_notified s (online_handler ev s)" by (simp add: online_handler_def)
  have same: "pass_notified s (s\<lparr>db := d\<rparr>)" for d
    by (simp add: pass_notified_def notified_def)
  show "pass_notified s (snd (enqueueSubmission ev sd s))"
    using pass same
    by (simp add: enqueueSubmission_def split: prod.splits sum.splits)
  show "pass_notified s (snd (retryFailedItems ev s))"
    using pass same
    by (simp add: retryFailedItems_def Let_def split: prod.splits option.splits)
qed

theorem status_subscription_witness:
  "syncListeners watched_state = [quiet_listener 1, quiet_listener 2] \<and>
   (\<forall>st. \<not> cb_throws (quiet_listener 1) st) \<and> (\<forall>st. \<not> cb_throws (quiet_listener 2) st) \<and>
   syncStatus watched_state = IDLE \<and>
   snd (onSyncStatusChange (quiet_listener 3) watched_state) =
     watched_state\<lparr>syncListeners := [quiet_listener 1, quiet_listener 2, quiet_listener 3],
                    callbackLog := [(3, IDLE)]\<rparr> \<and>
   syncStatus (snd (syncQueue (env_of True net_ok) watched_state)) = SUCCESS \<and>
   callbackLog (snd (syncQueue (env_of True net_ok) watched_state)) =
     [(1, SYNCING), (2, SYNCING), (1, SUCCESS), (2, SUCCESS)] \<and>
   notified watched_state [SYNCING, SUCCESS] (snd (syncQueue (env_of True net_ok) watched_state))"
proof -
  have h: "\<forall>c \<in> set (syncListeners watched_state). \<forall>st. \<not> cb_throws c st"
    by (simp add: watched_state_def quiet_listener_def)
  have e: "onLine (env_of True net_ok)" "pending_read (env_of True net_ok) = None"
    by (simp_all add: env_of_def)
  have i: "syncStatus watched_state \<noteq> SYNCING" "db watched_state = photo_store 0 Pending None"
    by (simp_all add: watched_state_def)
  have r: "snd (onSyncStatusChange (quiet_listener 3) watched_state) =
     watched_state\<lparr>syncListeners := [quiet_listener 1, quiet_listener 2, quiet_listener 3],
                    callbackLog := [(3, IDLE)]\<rparr>"
    by (simp add: onSyncStatusChange_def watched_state_def quiet_listener_def)
  have p: "syncQueue (env_of True net_ok) watched_state =
     (Inr (1, 0),
      watched_state\<lparr>db := snd (sync_items (remote (env_of True net_ok))
                                  [photo_item 0 Pending None] (photo_store 0 Pending None)),
                    syncStatus := SUCCESS,
                    callbackLog := [(1, SYNCING), (2, SYNCING), (1, SUCCESS), (2, SUCCESS)]\<rparr>)"
    unfolding syncQueue_quiet [OF e(1) i(1) e(2) h] i(2) photo_pending photo_pass
    by (simp add: watched_state_def quiet_listener_def)
  have l: "syncListeners watched_state = [quiet_listener 1, quiet_listener 2] \<and>
           (\<forall>st. \<not> cb_throws (quiet_listener 1) st) \<and> (\<forall>st. \<not> cb_throws (quiet_listener 2) st)"
    by (simp add: watched_state_def quiet_listener_def)
  show ?thesis
    using status_subscription [of "quiet_listener 3" watched_state SYNCING "env_of True net_ok"
      one_file] h r l
    by (simp add: p notified_def) (simp add: watched_state_def quiet_listener_def)
qed

end
